theory Spec2Isabelle
  imports Main
begin

section \<open>Python strings: slice bounds, \<open>rindex\<close> and slicing\<close>

text \<open>
  The exceptions the views of \<open>oclapi/views.py\<close> can raise or let through.
  \<open>ValueError\<close> is what \<open>str.rindex\<close> raises when nothing is found, \<open>Http404\<close> and
  \<open>MultipleObjectsReturned\<close> come from \<open>get_object_or_404\<close>, \<open>PermissionDenied\<close> and
  \<open>NotAuthenticated\<close> from \<open>check_object_permissions\<close>, \<open>AttributeError\<close> and \<open>TypeError\<close> from \<open>getattr\<close> on
  \<open>None\<close> or with the name \<open>None\<close>, and \<open>Resolver404\<close> from the URL resolver.
\<close>

datatype error =
    ValueError
  | Http404
  | MultipleObjectsReturned
  | PermissionDenied
  | NotAuthenticated
  | AttributeError
  | TypeError
  | Resolver404

text \<open>
  A slice or search bound \<open>i\<close> on a string of length \<open>n\<close>: a negative bound counts from
  the end, and every bound is clamped to \<open>0 .. n\<close>.
\<close>

definition slice_bound :: "nat \<Rightarrow> int \<Rightarrow> nat" where
  "slice_bound n i = (if i < 0 then nat (int n + i) else min n (nat i))"

text \<open>\<open>s[start:end]\<close>.\<close>

definition slice :: "string \<Rightarrow> int \<Rightarrow> int \<Rightarrow> string" where
  "slice s start end =
     drop (slice_bound (length s) start) (take (slice_bound (length s) end) s)"

text \<open>The highest position of \<open>c\<close> in a list, if there is one.\<close>

fun last_occurrence :: "'a \<Rightarrow> 'a list \<Rightarrow> nat option" where
  "last_occurrence c [] = None"
| "last_occurrence c (x # xs) =
     (case last_occurrence c xs of
        Some k \<Rightarrow> Some (Suc k)
      | None \<Rightarrow> if x = c then Some 0 else None)"

text \<open>
  \<open>s.rindex(c, start, end)\<close> for a one-character \<open>c\<close>: the highest index of \<open>c\<close> inside
  \<open>s[start:end]\<close>, as an index of \<open>s\<close>; \<open>ValueError\<close> when there is none.
  \<open>s.rindex(c)\<close> is \<open>rindex s c 0 (len s)\<close>.
\<close>

definition rindex :: "string \<Rightarrow> char \<Rightarrow> int \<Rightarrow> int \<Rightarrow> error + int" where
  "rindex s c start end =
     (let a = slice_bound (length s) start;
          b = slice_bound (length s) end
      in case last_occurrence c (drop a (take b s)) of
           None \<Rightarrow> Inl ValueError
         | Some k \<Rightarrow> Inr (int (a + k)))"

section \<open>\<open>PathWalkerMixin.get_parent_in_path\<close>\<close>

text \<open>
  The statements before the loop (lines 18 to 22): find the last slash, step over it when
  it is the last character, and cut the path after the slash found.
\<close>

definition first_cut :: "string \<Rightarrow> error + string" where
  "first_cut path_info =
     (let last_index = int (length path_info) - 1 in
      case rindex path_info CHR ''/'' 0 (int (length path_info)) of
        Inl e \<Rightarrow> Inl e
      | Inr last_slash \<Rightarrow>
          (case (if last_slash = last_index
                 then rindex path_info CHR ''/'' 0 last_index
                 else Inr last_slash) of
             Inl e \<Rightarrow> Inl e
           | Inr last_slash' \<Rightarrow> Inr (slice path_info 0 (last_slash' + 1))))"

text \<open>The \<open>while i < levels\<close> loop (lines 25 to 29).\<close>

function walk_up :: "int \<Rightarrow> int \<Rightarrow> string \<Rightarrow> error + string" where
  "walk_up i levels path_info =
     (if i < levels then
        (let last_index = int (length path_info) - 1 in
         case rindex path_info CHR ''/'' 0 last_index of
           Inl e \<Rightarrow> Inl e
         | Inr last_slash \<Rightarrow> walk_up (i + 1) levels (slice path_info 0 (last_slash + 1)))
      else Inr path_info)"
  by pat_completeness auto
termination
  by (relation "measure (\<lambda>(i, levels, p). nat (levels - i))") auto

declare walk_up.simps [simp del]

definition get_parent_in_path :: "string \<Rightarrow> int \<Rightarrow> error + string" where
  "get_parent_in_path path_info levels =
     (case first_cut path_info of
        Inl e \<Rightarrow> Inl e
      | Inr p \<Rightarrow> if levels > 1 then walk_up 1 levels p else Inr p)"


section \<open>Segments of a path\<close>

text \<open>
  The notions the statements about \<open>get_parent_in_path\<close> are written in. A path is read
  as segments separated by slashes, as Python's \<open>path.split('/')\<close> gives them; one slash
  at the very end is not a boundary before a further (empty) segment.
\<close>

fun split_on :: "char \<Rightarrow> string \<Rightarrow> string list" where
  "split_on c [] = [[]]"
| "split_on c (x # xs) =
     (let r = split_on c xs in if x = c then [] # r else (x # hd r) # tl r)"

definition join_slash :: "string list \<Rightarrow> string" where
  "join_slash ss = concat (map (\<lambda>s. s @ ''/'') ss)"

definition strip_trailing_slash :: "string \<Rightarrow> string" where
  "strip_trailing_slash p = (if p \<noteq> [] \<and> last p = CHR ''/'' then butlast p else p)"

definition count_slash :: "string \<Rightarrow> nat" where
  "count_slash p = length (filter (\<lambda>x. x = CHR ''/'') p)"

text \<open>
  The path with its last \<open>n\<close> segments removed: what is left of the segments, each
  closed by its slash.
\<close>

definition remove_last_segments :: "string \<Rightarrow> nat \<Rightarrow> string" where
  "remove_last_segments p n =
     (let segs = split_on CHR ''/'' (strip_trailing_slash p)
      in join_slash (take (length segs - n) segs))"

text \<open>\<open>k\<close> successive applications of \<open>get_parent_in_path(path, 1)\<close>.\<close>

fun parent_times :: "nat \<Rightarrow> string \<Rightarrow> error + string" where
  "parent_times 0 p = Inr p"
| "parent_times (Suc k) p =
     (case get_parent_in_path p 1 of Inl e \<Rightarrow> Inl e | Inr q \<Rightarrow> parent_times k q)"

definition slash_free :: "string \<Rightarrow> bool" where
  "slash_free s = (CHR ''/'' \<notin> set s)"

definition slashes_kept :: "string list \<Rightarrow> string \<Rightarrow> nat" where
  "slashes_kept ss t = (if t = [] then length ss - 1 else length ss)"

section \<open>Model objects, users and requests\<close>

text \<open>
  A value of a URL keyword argument: a captured string, or an extra argument of the URL
  configuration such as \<open>{'user_is_self': True}\<close>.
\<close>

datatype kwval = Str string | Bool bool

fun truthy :: "kwval \<Rightarrow> bool" where
  "truthy (Str s) = (s \<noteq> [])"
| "truthy (Bool b) = b"

type_synonym kwargs = "(string \<times> kwval) list"

text \<open>
  A stored model instance, with the fields the views read or write: the primary key
  \<open>id\<close>, the id of the content type of its model class, \<open>mnemonic\<close>, the owner (the
  primary key of a user), the generic parent reference, the generic reference of a version to
  the object it is a version of, and \<open>is_active\<close>.
\<close>

record obj =
  obj_id :: string
  content_type_id :: nat
  mnemonic :: string
  owner :: string
  parent_type :: nat
  parent_id :: string
  versioned_object_type :: nat
  versioned_object_id :: string
  is_active :: bool

text \<open>
  Modelled from the spec: the model classes of \<open>oclapi.models\<close> are not in the source. The
  glossary has a resource, and a versioned resource with stored versions of it, each
  addressable by itself. A \<open>ResourceVersion\<close> is such a version: an object with a
  \<open>versioned_object\<close> attribute, whose value is what it is a version of. Nothing in the
  source says that this value has no \<open>versioned_object\<close> attribute of its own, so it is any
  resource.
\<close>

datatype resource = Resource obj | ResourceVersion obj resource

fun res_obj :: "resource \<Rightarrow> obj" where
  "res_obj (Resource x) = x"
| "res_obj (ResourceVersion x _) = x"

text \<open>\<open>hasattr(r, 'versioned_object')\<close>; \<open>None\<close> has no attribute.\<close>

fun has_versioned_object :: "resource option \<Rightarrow> bool" where
  "has_versioned_object (Some (ResourceVersion _ _)) = True"
| "has_versioned_object _ = False"

text \<open>
  \<open>r.versioned_object\<close>. The views read it only after \<open>hasattr\<close> said the attribute is
  there, so the second equation is never evaluated by them.
\<close>

fun versioned_object_of :: "resource \<Rightarrow> resource" where
  "versioned_object_of (ResourceVersion _ r) = r"
| "versioned_object_of (Resource x) = Resource x"

text \<open>\<open>ContentType.objects.get_for_model(r).id\<close>.\<close>

definition get_for_model :: "resource \<Rightarrow> nat" where
  "get_for_model r = content_type_id (res_obj r)"

record userprofile =
  profile_obj :: obj
  organizations :: "string list"

text \<open>
  A user. \<open>get_profile\<close> is \<open>None\<close> when the user object has no such method
  (\<open>hasattr\<close> is false); otherwise it is what calling it gives, a profile or an exception.
\<close>

record user =
  user_id :: string
  get_profile :: "(error + userprofile) option"

text \<open>
  A request: its user, its path, and whether one of the authenticators of the framework
  accepted it (\<open>request.successful_authenticator\<close>).
\<close>

record request =
  req_user :: "user option"
  path_info :: string
  successful_authenticator :: bool

section \<open>Query clauses\<close>

text \<open>
  The \<open>Q\<close> objects the views build: \<open>Q(owner=user)\<close>, \<open>Q(parent_id=x)\<close>, a clause a
  subclass lists in \<open>base_or_clause\<close>, and \<open>x | y\<close>.
\<close>

datatype q =
    Q_owner user
  | Q_parent_id string
  | Q_clause "obj \<Rightarrow> bool"
  | Q_or q q

fun q_holds :: "q \<Rightarrow> obj \<Rightarrow> bool" where
  "q_holds (Q_owner u) x = (owner x = user_id u)"
| "q_holds (Q_parent_id i) x = (parent_id x = i)"
| "q_holds (Q_clause P) x = P x"
| "q_holds (Q_or a b) x = (q_holds a x \<or> q_holds b x)"

text \<open>\<open>reduce(f, xs, init)\<close>.\<close>

definition reduce :: "('a \<Rightarrow> 'b \<Rightarrow> 'a) \<Rightarrow> 'b list \<Rightarrow> 'a \<Rightarrow> 'a" where
  "reduce f xs init = foldl f init xs"

section \<open>The view\<close>

text \<open>
  The attributes of a view instance. The first block is what the framework's
  \<open>GenericAPIView\<close> provides and the views only call: the request, the URL keyword
  arguments, the name of the lookup argument, the restriction \<open>queryset\<close> puts on the rows of
  the model's table, the filter backends, and \<open>has_object_permission\<close>, which says whether
  every permission class of the view grants the object to the request. The flags
  \<open>list_model_mixin\<close> and \<open>create_model_mixin\<close> say whether the view's class derives from
  \<open>ListModelMixin\<close> and \<open>CreateModelMixin\<close>; \<open>url_kwarg\<close> is \<open>self.model.get_url_kwarg()\<close>.
  \<open>pk_field\<close> and \<open>child_list_attribute\<close> name an attribute; they are modelled as the
  function that reads it.
\<close>

record view =
  request :: request
  kwargs :: kwargs
  lookup_field :: string
  queryset :: "obj \<Rightarrow> bool"
  filter_queryset :: "obj list \<Rightarrow> obj list"
  has_object_permission :: "request \<Rightarrow> obj \<Rightarrow> bool"
  list_model_mixin :: bool
  create_model_mixin :: bool
  url_kwarg :: string
  pk_field :: "obj \<Rightarrow> kwval option"
  user_is_self :: kwval
  user :: "user option"
  userprofile :: "userprofile option"
  parent_path_info :: "string option"
  parent_resource :: "resource option"
  base_or_clause :: "q list"
  parent_resource_version :: "resource option"
  child_list_attribute :: "(resource \<Rightarrow> string list option) option"
  versioned_object_path_info :: "string option"
  versioned_object :: "resource option"

text \<open>The default \<open>pk_field = 'mnemonic'\<close>.\<close>

definition mnemonic_field :: "obj \<Rightarrow> kwval option" where
  "mnemonic_field x = Some (Str (mnemonic x))"

text \<open>
  A view class as the URL resolver hands it out (\<open>callback.cls\<close>): its constructor, its
  \<open>initialize\<close> and its \<open>get_object\<close>. The concrete view classes are outside this module.
\<close>

record 'i view_class =
  cls_new :: "request \<Rightarrow> kwargs \<Rightarrow> 'i"
  cls_initialize :: "'i \<Rightarrow> request \<Rightarrow> string \<Rightarrow> kwargs \<Rightarrow> error + 'i"
  cls_get_object :: "'i \<Rightarrow> error + resource"

type_synonym 'i resolver = "string \<Rightarrow> error + ('i view_class \<times> kwargs)"

text \<open>\<open>PathWalkerMixin.get_object_for_path\<close>, with the resolver \<open>resolve\<close> as a parameter.\<close>

definition get_object_for_path :: "'i resolver \<Rightarrow> string \<Rightarrow> request \<Rightarrow> error + resource" where
  "get_object_for_path resolve path req =
     (case resolve path of
        Inl e \<Rightarrow> Inl e
      | Inr (cls, callback_kwargs) \<Rightarrow>
          (let view = cls_new cls req callback_kwargs in
           case cls_initialize cls view req path callback_kwargs of
             Inl e \<Rightarrow> Inl e
           | Inr view' \<Rightarrow> cls_get_object cls view'))"


section \<open>\<open>BaseAPIView\<close>\<close>

text \<open>
  The rows of the table of the view's model are a list \<open>db\<close>. The framework's
  \<open>GenericAPIView.get_queryset\<close> gives the rows the view's \<open>queryset\<close> admits.
\<close>

definition GenericAPIView_get_queryset :: "view \<Rightarrow> obj list \<Rightarrow> obj list" where
  "GenericAPIView_get_queryset self db = filter (queryset self) db"

text \<open>
  \<open>get_queryset\<close> is overridden by the mixins, and one of the overrides assigns to an
  attribute of the view, so a \<open>get_queryset\<close> takes the view and the table and gives the
  query set, or the exception raised, together with the view as it is afterwards.
\<close>

type_synonym get_queryset = "view \<Rightarrow> obj list \<Rightarrow> (error + obj list) \<times> view"

definition BaseAPIView_get_queryset :: get_queryset where
  "BaseAPIView_get_queryset self db = (Inr (GenericAPIView_get_queryset self db), self)"

text \<open>\<open>kwargs.pop('user_is_self', False)\<close> (line 54).\<close>

definition BaseAPIView_initialize :: "view \<Rightarrow> request \<Rightarrow> string \<Rightarrow> kwargs \<Rightarrow> view" where
  "BaseAPIView_initialize self req path_info_segment kw =
     self\<lparr>user_is_self :=
            (case map_of kw ''user_is_self'' of None \<Rightarrow> Bool False | Some b \<Rightarrow> b)\<rparr>"

text \<open>
  The framework's \<open>get_object_or_404(queryset, **filter_kwargs)\<close>: \<open>queryset.get\<close> with
  \<open>DoesNotExist\<close> turned into \<open>Http404\<close>; more than one match raises
  \<open>MultipleObjectsReturned\<close>.
\<close>

definition get_object_or_404 :: "obj list \<Rightarrow> (obj \<Rightarrow> bool) \<Rightarrow> error + obj" where
  "get_object_or_404 qs matches =
     (case filter matches qs of
        [] \<Rightarrow> Inl Http404
      | [x] \<Rightarrow> Inr x
      | _ \<Rightarrow> Inl MultipleObjectsReturned)"

text \<open>
  The framework's \<open>permission_denied\<close> and \<open>check_object_permissions\<close>: a permission that
  does not grant the object raises \<open>NotAuthenticated\<close> for a request no authenticator
  accepted, and \<open>PermissionDenied\<close> otherwise. \<open>None\<close> is a check that passes.
\<close>

definition permission_denied :: "request \<Rightarrow> error" where
  "permission_denied req =
     (if \<not> successful_authenticator req then NotAuthenticated else PermissionDenied)"

definition check_object_permissions :: "view \<Rightarrow> request \<Rightarrow> obj \<Rightarrow> error option" where
  "check_object_permissions self req x =
     (if has_object_permission self req x then None else Some (permission_denied req))"

text \<open>
  \<open>BaseAPIView.get_object\<close> (lines 56 to 71). \<open>qs\<close> is the optional \<open>queryset\<close>
  argument; \<open>get_queryset\<close> is the method the view's class has under that name.
\<close>

definition BaseAPIView_get_object ::
    "get_queryset \<Rightarrow> view \<Rightarrow> obj list \<Rightarrow> obj list option \<Rightarrow> (error + obj) \<times> view" where
  "BaseAPIView_get_object get_queryset self db qs =
     (case (case qs of
              None \<Rightarrow>
                (case get_queryset self db of
                   (Inl e, self') \<Rightarrow> (Inl e, self')
                 | (Inr q, self') \<Rightarrow> (Inr (filter_queryset self' q), self'))
            | Some q \<Rightarrow> (Inr q, self)) of
        (Inl e, self') \<Rightarrow> (Inl e, self')
      | (Inr q, self') \<Rightarrow>
          (let lookup = map_of (kwargs self') (lookup_field self') in
           case get_object_or_404 q (\<lambda>x. pk_field self' x = lookup) of
             Inl e \<Rightarrow> (Inl e, self')
           | Inr x \<Rightarrow>
               (case check_object_permissions self' (request self') x of
                  Some e \<Rightarrow> (Inl e, self')
                | None \<Rightarrow> (Inr x, self'))))"

datatype response = Response nat

definition HTTP_204_NO_CONTENT :: nat where
  "HTTP_204_NO_CONTENT = 204"

text \<open>
  The framework's \<open>Model.save()\<close> on the table: the row with the instance's primary key
  is replaced by the instance; without such a row the instance is inserted.
\<close>

definition save :: "obj \<Rightarrow> obj list \<Rightarrow> obj list" where
  "save x db =
     (if obj_id x \<in> set (map obj_id db)
      then map (\<lambda>r. if obj_id r = obj_id x then x else r) db
      else db @ [x])"

text \<open>\<open>BaseAPIView.destroy\<close> (lines 73 to 77): the response, the view and the table afterwards.\<close>

definition BaseAPIView_destroy ::
    "get_queryset \<Rightarrow> view \<Rightarrow> obj list \<Rightarrow> request \<Rightarrow> (error + response) \<times> view \<times> obj list" where
  "BaseAPIView_destroy get_queryset self db req =
     (case BaseAPIView_get_object get_queryset self db None of
        (Inl e, self') \<Rightarrow> (Inl e, self', db)
      | (Inr x, self') \<Rightarrow>
          (let x' = x\<lparr>is_active := False\<rparr>
           in (Inr (Response HTTP_204_NO_CONTENT), self', save x' db)))"

section \<open>\<open>SubResourceMixin\<close>\<close>

text \<open>
  Lines 102 to 105, and again 142 to 145: the parent path, and the parent resource when the
  parent path is neither empty nor the root.
\<close>

definition parent_from_path :: "'i resolver \<Rightarrow> view \<Rightarrow> string \<Rightarrow> int \<Rightarrow> error + view" where
  "parent_from_path resolve self path_info_segment levels =
     (case get_parent_in_path path_info_segment levels of
        Inl e \<Rightarrow> Inl e
      | Inr ppi \<Rightarrow>
          (let self = self\<lparr>parent_path_info := Some ppi, parent_resource := None\<rparr> in
           if ppi \<noteq> [] \<and> ''/'' \<noteq> ppi then
             (case get_object_for_path resolve ppi (request self) of
                Inl e \<Rightarrow> Inl e
              | Inr r \<Rightarrow> Inr (self\<lparr>parent_resource := Some r\<rparr>))
           else Inr self))"

text \<open>Lines 95 to 97: the user of the request and, when it has one, its profile.\<close>

definition set_user :: "view \<Rightarrow> request \<Rightarrow> error + view" where
  "set_user self req =
     (let self = self\<lparr>user := req_user req\<rparr> in
      case user self of
        None \<Rightarrow> Inr self
      | Some u \<Rightarrow>
          (case get_profile u of
             None \<Rightarrow> Inr self
           | Some (Inl e) \<Rightarrow> Inl e
           | Some (Inr p) \<Rightarrow> Inr (self\<lparr>userprofile := Some p\<rparr>)))"

definition SubResourceMixin_initialize ::
    "'i resolver \<Rightarrow> view \<Rightarrow> request \<Rightarrow> string \<Rightarrow> kwargs \<Rightarrow> error + view" where
  "SubResourceMixin_initialize resolve self req path_info_segment kw =
     (case set_user (BaseAPIView_initialize self req path_info_segment kw) req of
        Inl e \<Rightarrow> Inl e
      | Inr self \<Rightarrow>
          (case (if truthy (user_is_self self) then userprofile self else None) of
             Some p \<Rightarrow> Inr (self\<lparr>parent_resource := Some (Resource (profile_obj p))\<rparr>)
           | None \<Rightarrow>
               (let levels = (if list_model_mixin self \<or> create_model_mixin self then 1 else 2)
                in parent_from_path resolve self path_info_segment levels)))"

text \<open>Lines 109 to 114: the clauses, in the order they are appended.\<close>

definition or_clauses_of :: "view \<Rightarrow> q list" where
  "or_clauses_of self =
     (case user self of None \<Rightarrow> [] | Some u \<Rightarrow> [Q_owner u])
     @ (case userprofile self of None \<Rightarrow> [] | Some p \<Rightarrow> map Q_parent_id (organizations p))
     @ base_or_clause self"

text \<open>Lines 115 to 119.\<close>

definition filter_or_clauses :: "q list \<Rightarrow> obj list \<Rightarrow> obj list" where
  "filter_or_clauses or_clauses qs =
     (if or_clauses \<noteq> [] then
        (if length or_clauses > 1
         then filter (q_holds (reduce Q_or (tl or_clauses) (hd or_clauses))) qs
         else filter (q_holds (hd or_clauses)) qs)
      else qs)"

definition SubResourceMixin_get_queryset :: get_queryset where
  "SubResourceMixin_get_queryset self db =
     (let qs = filter_or_clauses (or_clauses_of self) (GenericAPIView_get_queryset self db) in
      case parent_resource self of
        None \<Rightarrow> (Inr qs, self)
      | Some r \<Rightarrow>
          (let r = (if has_versioned_object (Some r) then versioned_object_of r else r);
               self = self\<lparr>parent_resource := Some r\<rparr>;
               parent_resource_type = get_for_model r
           in (Inr (filter (\<lambda>x. parent_type x = parent_resource_type
                                \<and> parent_id x = obj_id (res_obj r)) qs),
               self)))"

section \<open>\<open>VersionedResourceChildMixin\<close>\<close>


text \<open>
  \<open>getattr(self.parent_resource_version, self.child_list_attribute) or []\<close> (line 156).
\<close>

definition all_children_of :: "view \<Rightarrow> error + string list" where
  "all_children_of self =
     (case child_list_attribute self of
        None \<Rightarrow> Inl TypeError
      | Some attr \<Rightarrow>
          (case parent_resource_version self of
             None \<Rightarrow> Inl AttributeError
           | Some v \<Rightarrow> Inr (case attr v of None \<Rightarrow> [] | Some ids \<Rightarrow> ids)))"

text \<open>
  Lines 152 to 159. \<open>self.model.objects\<close> is the whole table, and
  \<open>super(SubResourceMixin, self).get_queryset()\<close> is the \<open>get_queryset\<close> of the class after
  \<open>SubResourceMixin\<close>, which is \<open>BaseAPIView\<close>'s.
\<close>

definition VersionedResourceChildMixin_get_queryset :: get_queryset where
  "VersionedResourceChildMixin_get_queryset self db =
     (let lookup = map_of (kwargs self) (lookup_field self) in
      if (case lookup of None \<Rightarrow> False | Some v \<Rightarrow> truthy v) then
        (Inr (filter (\<lambda>x. Some (Str (obj_id x)) = lookup) db), self)
      else
        (case all_children_of self of
           Inl e \<Rightarrow> (Inl e, self)
         | Inr all_children \<Rightarrow>
             (case BaseAPIView_get_queryset self db of
                (Inl e, self') \<Rightarrow> (Inl e, self')
              | (Inr qs, self') \<Rightarrow>
                  (Inr (filter (\<lambda>x. obj_id x \<in> set all_children) qs), self'))))"

section \<open>\<open>ResourceVersionMixin\<close>\<close>

definition ResourceVersionMixin_initialize ::
    "'i resolver \<Rightarrow> view \<Rightarrow> request \<Rightarrow> string \<Rightarrow> kwargs \<Rightarrow> error + view" where
  "ResourceVersionMixin_initialize resolve self req path_info_segment kw =
     (let self = BaseAPIView_initialize self req path_info_segment kw in
      case get_parent_in_path path_info_segment 1 of
        Inl e \<Rightarrow> Inl e
      | Inr p \<Rightarrow>
          (let self = self\<lparr>versioned_object_path_info := Some p\<rparr> in
           case get_object_for_path resolve p req of
             Inl e \<Rightarrow> Inl e
           | Inr r \<Rightarrow> Inr (self\<lparr>versioned_object := Some r\<rparr>)))"

text \<open>
  Lines 176 to 180. \<open>get_for_model(None)\<close> raises, so a view whose \<open>versioned_object\<close> was
  never set has no query set.
\<close>

definition ResourceVersionMixin_get_queryset :: get_queryset where
  "ResourceVersionMixin_get_queryset self db =
     (let qs = GenericAPIView_get_queryset self db in
      case versioned_object self of
        None \<Rightarrow> (Inl AttributeError, self)
      | Some r \<Rightarrow>
          (let versioned_object_type_id = get_for_model r
           in (Inr (filter (\<lambda>x. versioned_object_type x = versioned_object_type_id
                                \<and> versioned_object_id x = obj_id (res_obj r)) qs),
               self)))"


section \<open>Example data\<close>

text \<open>
  A view as its class attributes leave it (\<open>pk_field = 'mnemonic'\<close>, \<open>user_is_self = False\<close>,
  everything else \<open>None\<close> or empty), with the framework's default lookup name \<open>pk\<close>, no
  restriction on the table, no filter backend, and a permission check that lets every object
  through.
\<close>

definition default_view :: view where
  "default_view =
     \<lparr>request = \<lparr>req_user = None, path_info = ''/'', successful_authenticator = False\<rparr>,
      kwargs = [],
      lookup_field = ''pk'',
      queryset = (\<lambda>x. True),
      filter_queryset = (\<lambda>qs. qs),
      has_object_permission = (\<lambda>r x. True),
      list_model_mixin = False,
      create_model_mixin = False,
      url_kwarg = ''concept'',
      pk_field = mnemonic_field,
      user_is_self = Bool False,
      user = None,
      userprofile = None,
      parent_path_info = None,
      parent_resource = None,
      base_or_clause = [],
      parent_resource_version = None,
      child_list_attribute = None,
      versioned_object_path_info = None,
      versioned_object = None\<rparr>"

text \<open>A concept with the given id (also its mnemonic) and owner, child of the source \<open>s1\<close>.\<close>

definition concept :: "string \<Rightarrow> string \<Rightarrow> obj" where
  "concept i own =
     \<lparr>obj_id = i, content_type_id = 7, mnemonic = i, owner = own,
      parent_type = 3, parent_id = ''s1'',
      versioned_object_type = 0, versioned_object_id = [],
      is_active = True\<rparr>"

text \<open>The source \<open>s1\<close> and its version \<open>v1\<close>.\<close>

definition source_s1 :: obj where
  "source_s1 =
     \<lparr>obj_id = ''s1'', content_type_id = 3, mnemonic = ''s'', owner = ''bob'',
      parent_type = 2, parent_id = ''o1'',
      versioned_object_type = 0, versioned_object_id = [],
      is_active = True\<rparr>"

definition source_version_v1 :: obj where
  "source_version_v1 =
     \<lparr>obj_id = ''v1'', content_type_id = 4, mnemonic = ''v1'', owner = ''bob'',
      parent_type = 2, parent_id = ''o1'',
      versioned_object_type = 3, versioned_object_id = ''s1'',
      is_active = True\<rparr>"



definition alice :: user where
  "alice = \<lparr>user_id = ''alice'', get_profile = None\<rparr>"

text \<open>
  A URL configuration with three routes, the source, its version \<open>v1\<close>, and an object
  recorded as a version of that version, each to a view class whose \<open>get_object\<close> gives the
  object the route names.
\<close>

definition fixed_view_class :: "resource \<Rightarrow> unit view_class" where
  "fixed_view_class r =
     \<lparr>cls_new = (\<lambda>req kw. ()),
      cls_initialize = (\<lambda>i req path kw. Inr i),
      cls_get_object = (\<lambda>i. Inr r)\<rparr>"

definition example_resolver :: "unit resolver" where
  "example_resolver path =
     (if path = ''/orgs/o/sources/s/'' then
        Inr (fixed_view_class (Resource source_s1), [(''source'', Str ''s'')])
      else if path = ''/orgs/o/sources/s/v1/'' then
        Inr (fixed_view_class (ResourceVersion source_version_v1 (Resource source_s1)),
             [(''source'', Str ''s''), (''version'', Str ''v1'')])
      else if path = ''/orgs/o/sources/s/v1/r1/'' then
        Inr (fixed_view_class
               (ResourceVersion (source_version_v1\<lparr>obj_id := ''r1''\<rparr>)
                  (ResourceVersion source_version_v1 (Resource source_s1))),
             [(''source'', Str ''s''), (''version'', Str ''v1''), (''revision'', Str ''r1'')])
      else Inl Resolver404)"

text \<open>
  A view on the concepts of the source \<open>s1\<close> for the user \<open>alice\<close>, whose parent resource
  version \<open>v1\<close> lists the one child \<open>c1\<close>.
\<close>

definition concepts_attribute :: "resource \<Rightarrow> string list option" where
  "concepts_attribute v = (if obj_id (res_obj v) = ''v1'' then Some [''c1''] else None)"

definition concept_view :: view where
  "concept_view =
     default_view
       \<lparr>request := \<lparr>req_user = Some alice, path_info = ''/orgs/o/sources/s/concepts/'', successful_authenticator = True\<rparr>,
        user := Some alice,
        parent_resource := Some (Resource source_s1),
        parent_resource_version := Some (ResourceVersion source_version_v1 (Resource source_s1)),
        child_list_attribute := Some concepts_attribute\<rparr>"

section \<open>Properties of \<open>get_parent_in_path\<close>\<close>

subsection \<open>Searching and cutting\<close>

lemma last_occurrence_None: "last_occurrence c xs = None \<longleftrightarrow> c \<notin> set xs"
  by (induction xs) (auto split: option.splits)

lemma last_occurrence_append:
  "c \<notin> set ys \<Longrightarrow> last_occurrence c (xs @ c # ys) = Some (length xs)"
proof (induction xs)
  case Nil
  then have "last_occurrence c ys = None" by (simp add: last_occurrence_None)
  then show ?case by simp
next
  case (Cons x xs)
  then show ?case by simp
qed

lemma rindex_all:
  "rindex p c 0 (int (length p)) =
     (case last_occurrence c p of None \<Rightarrow> Inl ValueError | Some k \<Rightarrow> Inr (int k))"
  by (simp add: rindex_def slice_bound_def split: option.splits)

lemma take_bound_butlast:
  "take (slice_bound (length p) (int (length p) - 1)) p = butlast p"
proof (cases "p = []")
  case True
  then show ?thesis by (simp add: slice_bound_def)
next
  case False
  then have "slice_bound (length p) (int (length p) - 1) = length p - 1"
    by (cases p) (auto simp: slice_bound_def)
  then show ?thesis by (simp add: butlast_conv_take)
qed

lemma rindex_butlast:
  "rindex p c 0 (int (length p) - 1) =
     (case last_occurrence c (butlast p) of None \<Rightarrow> Inl ValueError | Some k \<Rightarrow> Inr (int k))"
proof -
  have "slice_bound (length p) 0 = 0" by (simp add: slice_bound_def)
  then show ?thesis
    by (simp add: rindex_def Let_def take_bound_butlast split: option.splits)
qed

lemma slice_take: "0 \<le> k \<Longrightarrow> slice p 0 k = take (nat k) p"
  by (simp add: slice_def slice_bound_def min_def)

lemma join_slash_snoc: "join_slash (ss @ [s]) = join_slash ss @ s @ ''/''"
  by (simp add: join_slash_def)

lemma slash_free_join_butlast:
  "ss \<noteq> [] \<Longrightarrow> join_slash ss = (join_slash (butlast ss) @ last ss) @ ''/''"
  using join_slash_snoc [of "butlast ss" "last ss"] by simp

lemma cut_join:
  assumes "ss \<noteq> []" "slash_free t"
  shows "last_occurrence CHR ''/'' (join_slash ss @ t) = Some (length (join_slash ss) - 1)"
proof -
  let ?h = "join_slash (butlast ss) @ last ss"
  have "join_slash ss @ t = ?h @ CHR ''/'' # t"
    using slash_free_join_butlast [OF assms(1)] by simp
  moreover have "last_occurrence CHR ''/'' (?h @ CHR ''/'' # t) = Some (length ?h)"
    using assms(2) by (intro last_occurrence_append) (simp add: slash_free_def)
  moreover have "length (join_slash ss) - 1 = length ?h"
    using slash_free_join_butlast [OF assms(1)] by simp
  ultimately show ?thesis by simp
qed


lemma join_slash_length_pos: "ss \<noteq> [] \<Longrightarrow> Suc 0 \<le> length (join_slash ss)"
  by (cases ss) (simp_all add: join_slash_def)

lemma butlast_join_slash:
  "ss \<noteq> [] \<Longrightarrow> butlast (join_slash ss) = join_slash (butlast ss) @ last ss"
  using slash_free_join_butlast [of ss] by (simp add: butlast_append)

lemma last_join_slash: "ss \<noteq> [] \<Longrightarrow> last (join_slash ss) = CHR ''/''"
  using slash_free_join_butlast [of ss] by simp

lemma rindex_join:
  assumes "slash_free t"
  shows "rindex (join_slash ss @ t) CHR ''/'' 0 (int (length (join_slash ss @ t))) =
           (if ss = [] then Inl ValueError else Inr (int (length (join_slash ss)) - 1))"
proof (cases "ss = []")
  case True
  have "last_occurrence CHR ''/'' t = None"
    using assms by (simp add: last_occurrence_None slash_free_def)
  with True show ?thesis by (simp add: rindex_all join_slash_def)
next
  case False
  have "Suc 0 \<le> length (join_slash ss)"
    by (rule join_slash_length_pos [OF False])
  then have "int (length (join_slash ss) - 1) = int (length (join_slash ss)) - 1"
    by (simp add: of_nat_diff)
  moreover have "rindex (join_slash ss @ t) CHR ''/'' 0 (int (length (join_slash ss @ t)))
                   = Inr (int (length (join_slash ss) - 1))"
    unfolding rindex_all cut_join [OF False assms] by simp
  ultimately show ?thesis using False by simp
qed

lemma butlast_nonempty_iff: "butlast ss \<noteq> [] \<longleftrightarrow> 2 \<le> length ss"
proof (cases ss rule: rev_cases)
  case Nil
  then show ?thesis by simp
next
  case (snoc ys y)
  then show ?thesis by (cases ys) simp_all
qed

lemma rindex_butlast_join:
  assumes "list_all slash_free ss"
  shows "rindex (join_slash ss) CHR ''/'' 0 (int (length (join_slash ss)) - 1) =
           (if 2 \<le> length ss then Inr (int (length (join_slash (butlast ss))) - 1)
            else Inl ValueError)"
proof (cases "ss = []")
  case True
  then show ?thesis by (simp add: rindex_def slice_bound_def join_slash_def)
next
  case False
  then have sf: "slash_free (last ss)"
    using assms by (simp add: list_all_iff)
  have bl: "butlast (join_slash ss) = join_slash (butlast ss) @ last ss"
    by (rule butlast_join_slash [OF False])
  show ?thesis
  proof (cases "butlast ss = []")
    case True
    then have "length ss \<le> 1" using butlast_nonempty_iff [of ss] by simp
    moreover have "last_occurrence CHR ''/'' (last ss) = None"
      using sf by (simp add: last_occurrence_None slash_free_def)
    moreover have "butlast (join_slash ss) = last ss"
      using bl True by (simp add: join_slash_def)
    ultimately show ?thesis
      by (simp add: rindex_butlast)
  next
    case nonempty: False
    then have len: "2 \<le> length ss" by (simp add: butlast_nonempty_iff)
    have "Suc 0 \<le> length (join_slash (butlast ss))"
      by (rule join_slash_length_pos [OF nonempty])
    with len show ?thesis
      by (simp add: rindex_butlast bl cut_join [OF nonempty sf] of_nat_diff)
  qed
qed

lemma take_join_butlast:
  "ss \<noteq> [] \<Longrightarrow> take (length (join_slash (butlast ss))) (join_slash ss) = join_slash (butlast ss)"
  using slash_free_join_butlast [of ss] by simp

text \<open>One pass of the loop body on a slash-terminated path.\<close>

lemma walk_up_closed:
  assumes "list_all slash_free ss"
  shows "walk_up i levels (join_slash ss) =
           (if nat (levels - i) < length ss \<or> nat (levels - i) = 0
            then Inr (join_slash (take (length ss - nat (levels - i)) ss))
            else Inl ValueError)"
  using assms
proof (induction i levels "join_slash ss" arbitrary: ss rule: walk_up.induct)
  case (1 i levels)
  show ?case
  proof (cases "i < levels")
    case False
    then show ?thesis by (subst walk_up.simps) simp
  next
    case True
    note lt = True
    show ?thesis
    proof (cases "2 \<le> length ss")
      case False
      with lt have "\<not> nat (levels - i) < length ss" "nat (levels - i) \<noteq> 0" by auto
      moreover have "walk_up i levels (join_slash ss) = Inl ValueError"
        using lt False by (subst walk_up.simps) (simp add: rindex_butlast_join [OF "1.prems"])
      ultimately show ?thesis by simp
    next
      case True
      then have ne: "ss \<noteq> []" by auto
      have cut': "slice (join_slash ss) 0 (int (length (join_slash (butlast ss))))
                   = join_slash (butlast ss)"
        by (simp add: slice_take take_join_butlast [OF ne])
      then have cut: "slice (join_slash ss) 0 (int (length (join_slash (butlast ss))) - 1 + 1)
                   = join_slash (butlast ss)"
        by simp
      have sf': "list_all slash_free (butlast ss)"
        using "1.prems" by (auto simp: list_all_iff dest: in_set_butlastD)
      have ri: "rindex (join_slash ss) CHR ''/'' 0 (int (length (join_slash ss)) - 1)
                  = Inr (int (length (join_slash (butlast ss))) - 1)"
        using True by (simp add: rindex_butlast_join [OF "1.prems"])
      have IH: "walk_up (i + 1) levels (join_slash (butlast ss)) =
                  (if nat (levels - (i + 1)) < length (butlast ss) \<or> nat (levels - (i + 1)) = 0
                   then Inr (join_slash (take (length (butlast ss) - nat (levels - (i + 1))) (butlast ss)))
                   else Inl ValueError)"
        using "1.hyps" [OF lt refl ri cut sf'] .
      have step: "walk_up i levels (join_slash ss) = walk_up (i + 1) levels (join_slash (butlast ss))"
        using lt by (subst walk_up.simps) (simp add: ri cut')
      have n: "nat (levels - i) = Suc (nat (levels - (i + 1)))" using lt by simp
      have tk: "take (length (butlast ss) - nat (levels - (i + 1))) (butlast ss)
                  = take (length ss - nat (levels - i)) ss"
        using ne by (simp add: n butlast_conv_take min_def)
      show ?thesis
        unfolding step IH tk using True n by auto
    qed
  qed
qed


lemma first_cut_closed:
  assumes "list_all slash_free ss" "slash_free t"
  shows "first_cut (join_slash ss @ t) =
           (if t = [] then (if 2 \<le> length ss then Inr (join_slash (butlast ss)) else Inl ValueError)
            else (if ss = [] then Inl ValueError else Inr (join_slash ss)))"
proof (cases "ss = []")
  case True
  then show ?thesis
    unfolding first_cut_def Let_def rindex_join [OF assms(2)] by simp
next
  case ne: False
  have pos: "Suc 0 \<le> length (join_slash ss)"
    by (rule join_slash_length_pos [OF ne])
  show ?thesis
  proof (cases "t = []")
    case True
    have "first_cut (join_slash ss) =
            (case rindex (join_slash ss) CHR ''/'' 0 (int (length (join_slash ss)) - 1) of
               Inl e \<Rightarrow> Inl e
             | Inr k \<Rightarrow> Inr (slice (join_slash ss) 0 (k + 1)))"
      unfolding first_cut_def Let_def using rindex_join [of "[]" ss] ne
      by (simp add: slash_free_def)
    also have "\<dots> = (if 2 \<le> length ss then Inr (join_slash (butlast ss)) else Inl ValueError)"
      unfolding rindex_butlast_join [OF assms(1)]
      by (simp add: slice_take take_join_butlast [OF ne])
    finally show ?thesis using True by simp
  next
    case False
    then have "int (length (join_slash ss)) - 1 \<noteq> int (length (join_slash ss @ t)) - 1"
      by simp
    then have "first_cut (join_slash ss @ t) =
                 Inr (slice (join_slash ss @ t) 0 (int (length (join_slash ss)) - 1 + 1))"
      unfolding first_cut_def Let_def rindex_join [OF assms(2)] using ne by simp
    then show ?thesis using False ne by (simp add: slice_take)
  qed
qed

lemma nonempty_length: "ss \<noteq> [] \<Longrightarrow> Suc 0 \<le> length ss"
  by (cases ss) simp_all

lemma list_all_butlast: "list_all P ss \<Longrightarrow> list_all P (butlast ss)"
  by (auto simp: list_all_iff dest: in_set_butlastD)

lemma take_butlast_le:
  assumes "k < length ss"
  shows "take k (butlast ss) = take k ss"
proof -
  from assms have "min k (length ss - 1) = k" by arith
  then show ?thesis by (simp add: butlast_conv_take)
qed


lemma get_parent_in_path_closed:
  assumes "list_all slash_free ss" "slash_free t"
  shows "get_parent_in_path (join_slash ss @ t) levels =
           (if nat (max levels 1) \<le> slashes_kept ss t
            then Inr (join_slash (take (slashes_kept ss t + 1 - nat (max levels 1)) ss))
            else Inl ValueError)"
proof (cases "t = []")
  case True
  note t = True
  show ?thesis
  proof (cases "2 \<le> length ss")
    case False
    have fc: "first_cut (join_slash ss @ t) = Inl ValueError"
      using first_cut_closed [OF assms] t False by simp
    have "\<not> nat (max levels 1) \<le> slashes_kept ss t"
      using t False by (auto simp: slashes_kept_def max_def)
    then show ?thesis
      unfolding get_parent_in_path_def fc by simp
  next
    case True
    have fc: "first_cut (join_slash ss @ t) = Inr (join_slash (butlast ss))"
      using first_cut_closed [OF assms] t True by simp
    have m: "slashes_kept ss t = length ss - 1" using t by (simp add: slashes_kept_def)
    show ?thesis
    proof (cases "levels > 1")
      case False
      then have "nat (max levels 1) = 1" by (simp add: max_def)
      with False True show ?thesis
        unfolding get_parent_in_path_def fc by (simp add: m butlast_conv_take)
    next
      case lv: True
      define k where "k = nat (levels - 1)"
      have n: "nat (max levels 1) = Suc k" using lv by (simp add: k_def max_def)
      have "get_parent_in_path (join_slash ss @ t) levels = walk_up 1 levels (join_slash (butlast ss))"
        unfolding get_parent_in_path_def fc using lv by simp
      also have "\<dots> = (if k < length (butlast ss) \<or> k = 0
            then Inr (join_slash (take (length (butlast ss) - k) (butlast ss)))
            else Inl ValueError)"
        unfolding k_def by (rule walk_up_closed [OF list_all_butlast [OF assms(1)]])
      also have "\<dots> = (if Suc k \<le> slashes_kept ss t
            then Inr (join_slash (take (slashes_kept ss t + 1 - Suc k) ss))
            else Inl ValueError)"
        using True by (auto simp: m take_butlast_le)
      finally show ?thesis unfolding n .
    qed
  qed
next
  case False
  note t = False
  show ?thesis
  proof (cases "ss = []")
    case True
    have fc: "first_cut (join_slash ss @ t) = Inl ValueError"
      using first_cut_closed [OF assms] t True by simp
    have "\<not> nat (max levels 1) \<le> slashes_kept ss t"
      using t True by (auto simp: slashes_kept_def max_def)
    then show ?thesis
      unfolding get_parent_in_path_def fc by simp
  next
    case ne: False
    have fc: "first_cut (join_slash ss @ t) = Inr (join_slash ss)"
      using first_cut_closed [OF assms] t ne by simp
    have m: "slashes_kept ss t = length ss" using t by (simp add: slashes_kept_def)
    show ?thesis
    proof (cases "levels > 1")
      case False
      then have "nat (max levels 1) = 1" by (simp add: max_def)
      moreover have "Suc 0 \<le> length ss" by (rule nonempty_length [OF ne])
      ultimately show ?thesis
        unfolding get_parent_in_path_def fc m using False by simp
    next
      case lv: True
      define k where "k = nat (levels - 1)"
      have n: "nat (max levels 1) = Suc k" using lv by (simp add: k_def max_def)
      have "get_parent_in_path (join_slash ss @ t) levels = walk_up 1 levels (join_slash ss)"
        unfolding get_parent_in_path_def fc using lv by simp
      also have "\<dots> = (if k < length ss \<or> k = 0
            then Inr (join_slash (take (length ss - k) ss))
            else Inl ValueError)"
        unfolding k_def by (rule walk_up_closed [OF assms(1)])
      also have "\<dots> = (if Suc k \<le> slashes_kept ss t
            then Inr (join_slash (take (slashes_kept ss t + 1 - Suc k) ss))
            else Inl ValueError)"
        using nonempty_length [OF ne] by (auto simp: m)
      finally show ?thesis unfolding n .
    qed
  qed
qed


subsection \<open>Every path is a run of slash-closed segments and an open tail\<close>

lemma path_decomposition:
  "\<exists>ss t. p = join_slash ss @ t \<and> list_all slash_free ss \<and> slash_free t"
proof (induction p rule: rev_induct)
  case Nil
  have "[] = join_slash [] @ [] \<and> list_all slash_free [] \<and> slash_free []"
    by (simp add: join_slash_def slash_free_def)
  then show ?case by blast
next
  case (snoc x xs)
  then obtain ss t where xs: "xs = join_slash ss @ t"
    and sf: "list_all slash_free ss" "slash_free t" by blast
  show ?case
  proof (cases "x = CHR ''/''")
    case True
    have "xs @ [x] = join_slash (ss @ [t]) @ []"
      using xs True by (simp add: join_slash_snoc)
    moreover have "list_all slash_free (ss @ [t])" using sf by simp
    moreover have "slash_free []" by (simp add: slash_free_def)
    ultimately show ?thesis by blast
  next
    case False
    have "xs @ [x] = join_slash ss @ (t @ [x])" using xs by simp
    moreover have "slash_free (t @ [x])" using sf(2) False by (simp add: slash_free_def)
    ultimately show ?thesis using sf(1) by blast
  qed
qed

lemma split_on_slash_free: "slash_free t \<Longrightarrow> split_on CHR ''/'' t = [t]"
  by (induction t) (auto simp: slash_free_def Let_def)

lemma split_on_segment:
  "slash_free s \<Longrightarrow> split_on CHR ''/'' (s @ CHR ''/'' # r) = s # split_on CHR ''/'' r"
  by (induction s) (auto simp: slash_free_def Let_def)

lemma split_on_join:
  "list_all slash_free ss \<Longrightarrow> slash_free t \<Longrightarrow> split_on CHR ''/'' (join_slash ss @ t) = ss @ [t]"
proof (induction ss)
  case Nil
  then show ?case by (simp add: join_slash_def split_on_slash_free)
next
  case (Cons s ss)
  then have "split_on CHR ''/'' (s @ CHR ''/'' # (join_slash ss @ t)) = s # (ss @ [t])"
    by (simp add: split_on_segment)
  then show ?case by (simp add: join_slash_def)
qed

lemma count_slash_free: "slash_free t \<Longrightarrow> count_slash t = 0"
  by (induction t) (auto simp: slash_free_def count_slash_def)

lemma count_slash_append: "count_slash (a @ b) = count_slash a + count_slash b"
  by (simp add: count_slash_def)

lemma count_slash_join:
  "list_all slash_free ss \<Longrightarrow> count_slash (join_slash ss) = length ss"
proof (induction ss)
  case Nil
  then show ?case by (simp add: join_slash_def count_slash_def)
next
  case (Cons s ss)
  have "join_slash (s # ss) = s @ ''/'' @ join_slash ss" by (simp add: join_slash_def)
  then have "count_slash (join_slash (s # ss)) = count_slash s + (count_slash ''/'' + count_slash (join_slash ss))"
    by (simp only: count_slash_append)
  moreover have "count_slash ''/'' = 1" by (simp add: count_slash_def)
  ultimately show ?case using Cons by (simp add: count_slash_free)
qed

lemma slash_free_last: "slash_free t \<Longrightarrow> t \<noteq> [] \<Longrightarrow> last t \<noteq> CHR ''/''"
  by (metis last_in_set slash_free_def)

lemma strip_join:
  assumes "list_all slash_free ss" "slash_free t"
  shows "strip_trailing_slash (join_slash ss @ t) =
           (if t \<noteq> [] then join_slash ss @ t
            else if ss = [] then []
            else join_slash (butlast ss) @ last ss)"
proof (cases "t = []")
  case False
  then have "last (join_slash ss @ t) \<noteq> CHR ''/''"
    using slash_free_last [OF assms(2)] by simp
  then show ?thesis using False by (simp add: strip_trailing_slash_def)
next
  case True
  show ?thesis
  proof (cases "ss = []")
    case True
    with \<open>t = []\<close> show ?thesis by (simp add: strip_trailing_slash_def join_slash_def)
  next
    case False
    with \<open>t = []\<close> show ?thesis
      using last_join_slash [OF False] butlast_join_slash [OF False] join_slash_length_pos [OF False]
      by (auto simp: strip_trailing_slash_def)
  qed
qed

lemma count_slash_strip_join:
  assumes "list_all slash_free ss" "slash_free t"
  shows "count_slash (strip_trailing_slash (join_slash ss @ t)) = slashes_kept ss t"
proof -
  have a: "t \<noteq> [] \<Longrightarrow> count_slash (join_slash ss @ t) = length ss"
    using assms by (simp add: count_slash_append count_slash_join count_slash_free)
  have b: "count_slash (join_slash (butlast ss) @ last ss) = length ss - 1" if "ss \<noteq> []"
  proof -
    have "slash_free (last ss)" using assms(1) that by (simp add: list_all_iff)
    then show ?thesis
      using list_all_butlast [OF assms(1)]
      by (simp add: count_slash_append count_slash_join count_slash_free)
  qed
  have c: "count_slash [] = 0" by (simp add: count_slash_def)
  show ?thesis
    unfolding strip_join [OF assms] slashes_kept_def using a b c by auto
qed

lemma remove_last_segments_join:
  assumes "list_all slash_free ss" "slash_free t" "1 \<le> n"
  shows "remove_last_segments (join_slash ss @ t) n = join_slash (take (slashes_kept ss t + 1 - n) ss)"
proof -
  let ?segs = "split_on CHR ''/'' (strip_trailing_slash (join_slash ss @ t))"
  have segs: "?segs = (if t \<noteq> [] then ss @ [t] else if ss = [] then [[]] else butlast ss @ [last ss])"
  proof -
    have "slash_free []" by (simp add: slash_free_def)
    moreover have "ss \<noteq> [] \<Longrightarrow> slash_free (last ss)" using assms(1) by (simp add: list_all_iff)
    ultimately show ?thesis
      unfolding strip_join [OF assms(1,2)]
      using split_on_join [OF assms(1,2)] split_on_join [OF list_all_butlast [OF assms(1)], of "last ss"]
      by (auto simp: split_on_slash_free)
  qed
  have rls: "remove_last_segments (join_slash ss @ t) n = join_slash (take (length ?segs - n) ?segs)"
    by (simp add: remove_last_segments_def Let_def)
  show ?thesis
  proof (cases "t = []")
    case False
    then show ?thesis
      unfolding rls segs using assms(3) by (simp add: slashes_kept_def)
  next
    case True
    show ?thesis
    proof (cases "ss = []")
      case True
      with \<open>t = []\<close> show ?thesis
        unfolding rls segs using assms(3) by (simp add: slashes_kept_def join_slash_def)
    next
      case False
      then have "butlast ss @ [last ss] = ss" by simp
      with False \<open>t = []\<close> show ?thesis
        unfolding rls segs using assms(3) by (simp add: slashes_kept_def)
    qed
  qed
qed

text \<open>What \<open>get_parent_in_path\<close> computes, on every string and every \<open>levels\<close>.\<close>

lemma get_parent_in_path_char:
  "get_parent_in_path p levels =
     (if nat (max levels 1) \<le> count_slash (strip_trailing_slash p)
      then Inr (remove_last_segments p (nat (max levels 1)))
      else Inl ValueError)"
proof -
  obtain ss t where p: "p = join_slash ss @ t"
    and sf: "list_all slash_free ss" "slash_free t"
    using path_decomposition by blast
  have n: "1 \<le> nat (max levels 1)" by simp
  show ?thesis
    unfolding p get_parent_in_path_closed [OF sf] count_slash_strip_join [OF sf]
      remove_last_segments_join [OF sf n]
    by (rule refl)
qed

subsection \<open>The claims about the path walk\<close>

lemma count_slash_strip: "count_slash p \<le> count_slash (strip_trailing_slash p) + 1"
proof (cases "p \<noteq> [] \<and> last p = CHR ''/''")
  case True
  then have "butlast p @ [last p] = p" by (metis append_butlast_last_id)
  then have "count_slash p = count_slash (butlast p) + count_slash [last p]"
    by (metis count_slash_append)
  moreover have "count_slash [last p] \<le> 1" by (simp add: count_slash_def)
  ultimately show ?thesis using True by (simp add: strip_trailing_slash_def)
next
  case False
  then show ?thesis by (auto simp: strip_trailing_slash_def)
qed

lemma remove_last_segments_shape:
  assumes "1 \<le> n" "n \<le> count_slash (strip_trailing_slash p)"
  shows "remove_last_segments p n \<noteq> []
         \<and> last (remove_last_segments p n) = CHR ''/''
         \<and> take (length (remove_last_segments p n)) p = remove_last_segments p n"
proof -
  obtain ss t where p: "p = join_slash ss @ t"
    and sf: "list_all slash_free ss" "slash_free t"
    using path_decomposition by blast
  let ?k = "slashes_kept ss t + 1 - n"
  have r: "remove_last_segments p n = join_slash (take ?k ss)"
    unfolding p by (rule remove_last_segments_join [OF sf assms(1)])
  have m: "n \<le> slashes_kept ss t"
    using assms(2) unfolding p count_slash_strip_join [OF sf] .
  have "slashes_kept ss t \<le> length ss" by (simp add: slashes_kept_def)
  with m assms(1) have ne: "take ?k ss \<noteq> []" by (cases ss) auto
  have "join_slash ss = join_slash (take ?k ss) @ join_slash (drop ?k ss)"
    unfolding join_slash_def by (metis append_take_drop_id concat_append map_append)
  then have "p = join_slash (take ?k ss) @ (join_slash (drop ?k ss) @ t)"
    unfolding p by simp
  then have "take (length (join_slash (take ?k ss))) p = join_slash (take ?k ss)"
    by (metis append_eq_conv_conj)
  then show ?thesis
    unfolding r using join_slash_length_pos [OF ne] last_join_slash [OF ne] by auto
qed

lemma get_parent_in_path_Inr:
  assumes "get_parent_in_path path levels = Inr pp"
  shows "pp = remove_last_segments path (nat (max levels 1)) \<and> pp \<noteq> [] \<and> last pp = CHR ''/''"
proof -
  have enough: "nat (max levels 1) \<le> count_slash (strip_trailing_slash path)"
    using assms unfolding get_parent_in_path_char by (simp split: if_splits)
  then have "pp = remove_last_segments path (nat (max levels 1))"
    using assms unfolding get_parent_in_path_char by simp
  moreover have "1 \<le> nat (max levels 1)" by simp
  ultimately show ?thesis
    using remove_last_segments_shape [OF _ enough] by simp
qed

lemma get_parent_in_path_compose:
  assumes "1 \<le> k"
  shows "get_parent_in_path p (k + 1) =
           (case get_parent_in_path p 1 of Inl e \<Rightarrow> Inl e | Inr q \<Rightarrow> get_parent_in_path q k)"
proof -
  obtain ss t where p: "p = join_slash ss @ t"
    and sf: "list_all slash_free ss" "slash_free t"
    using path_decomposition by blast
  define m where "m = slashes_kept ss t"
  have mle: "m \<le> length ss" by (simp add: m_def slashes_kept_def)
  have k: "nat (max (k + 1) 1) = Suc (nat k)" "nat (max k 1) = nat k" "1 \<le> nat k"
    using assms by (simp_all add: max_def)
  have one: "get_parent_in_path p 1 = (if 1 \<le> m then Inr (join_slash (take m ss)) else Inl ValueError)"
    unfolding p get_parent_in_path_closed [OF sf] m_def by simp
  have big: "get_parent_in_path p (k + 1) =
               (if Suc (nat k) \<le> m then Inr (join_slash (take (m - nat k) ss)) else Inl ValueError)"
    unfolding p get_parent_in_path_closed [OF sf] k m_def by simp
  have sf': "list_all slash_free (take m ss)"
    using sf(1) by (auto simp: list_all_iff dest: in_set_takeD)
  have e: "slash_free []" by (simp add: slash_free_def)
  have "get_parent_in_path (join_slash (take m ss) @ []) k =
          (if nat k \<le> slashes_kept (take m ss) []
           then Inr (join_slash (take (slashes_kept (take m ss) [] + 1 - nat k) (take m ss)))
           else Inl ValueError)"
    unfolding get_parent_in_path_closed [OF sf' e] k by (rule refl)
  moreover have "slashes_kept (take m ss) [] = m - 1"
    using mle by (simp add: slashes_kept_def)
  ultimately have inner: "get_parent_in_path (join_slash (take m ss)) k =
          (if nat k \<le> m - 1
           then Inr (join_slash (take (m - 1 + 1 - nat k) (take m ss)))
           else Inl ValueError)"
    by simp
  show ?thesis
  proof (cases "1 \<le> m")
    case False
    then show ?thesis unfolding one big by simp
  next
    case True
    then have "min (m - nat k) m = m - nat k" "m - 1 + 1 = m" by simp_all
    then show ?thesis
      unfolding one big using True k(3) by (auto simp: inner)
  qed
qed

lemma parent_times_eq:
  "1 \<le> n \<Longrightarrow> parent_times n p = get_parent_in_path p (int n)"
proof (induction n arbitrary: p)
  case 0
  then show ?case by simp
next
  case (Suc n)
  show ?case
  proof (cases "n = 0")
    case True
    then show ?thesis by (simp split: sum.splits)
  next
    case False
    then have n: "1 \<le> n" "(1::int) \<le> int n" by simp_all
    have "get_parent_in_path p (int (Suc n)) = get_parent_in_path p (int n + 1)"
      by (simp add: add.commute)
    also have "\<dots> = (case get_parent_in_path p 1 of
                        Inl e \<Rightarrow> Inl e | Inr q \<Rightarrow> get_parent_in_path q (int n))"
      by (rule get_parent_in_path_compose [OF n(2)])
    also have "\<dots> = parent_times (Suc n) p"
      using Suc.IH [OF n(1)] by (simp split: sum.splits)
    finally show ?thesis by simp
  qed
qed

text \<open>
  C3. For every path with at least \<open>levels + 1\<close> slashes and every \<open>levels\<close> of at least 1,
  \<open>get_parent_in_path\<close> returns the path with its last \<open>levels\<close> segments removed, a
  slash at the end of the input not counting as the start of a further segment. The result
  is a prefix of the input and ends with a slash.
\<close>

theorem get_parent_in_path_removes_segments:
  assumes "1 \<le> levels" and "nat levels + 1 \<le> count_slash path"
  shows "get_parent_in_path path levels = Inr (remove_last_segments path (nat levels))
         \<and> take (length (remove_last_segments path (nat levels))) path
             = remove_last_segments path (nat levels)
         \<and> remove_last_segments path (nat levels) \<noteq> []
         \<and> last (remove_last_segments path (nat levels)) = CHR ''/''"
proof -
  have n: "nat (max levels 1) = nat levels" "1 \<le> nat levels"
    using assms(1) by (simp_all add: max_def)
  have enough: "nat levels \<le> count_slash (strip_trailing_slash path)"
    using assms(2) count_slash_strip [of path] by simp
  have "get_parent_in_path path levels = Inr (remove_last_segments path (nat levels))"
    unfolding get_parent_in_path_char n using enough by simp
  then show ?thesis
    using remove_last_segments_shape [OF n(2) enough] by simp
qed

theorem get_parent_in_path_removes_segments_witness:
  "(1::int) \<le> 2 \<and> nat 2 + 1 \<le> count_slash ''/orgs/o/sources/s/''
   \<and> get_parent_in_path ''/orgs/o/sources/s/'' 2 = Inr ''/orgs/o/''
   \<and> remove_last_segments ''/orgs/o/sources/s/'' (nat 2) = ''/orgs/o/''"
proof -
  have a: "(1::int) \<le> 2" by simp
  have b: "nat 2 + 1 \<le> count_slash ''/orgs/o/sources/s/''" by (simp add: count_slash_def)
  have c: "remove_last_segments ''/orgs/o/sources/s/'' (nat 2) = ''/orgs/o/''"
    by (simp add: remove_last_segments_def strip_trailing_slash_def join_slash_def Let_def)
  show ?thesis
    using get_parent_in_path_removes_segments [OF a b] a b c by simp
qed

text \<open>
  C8, as the code has it. \<open>get_parent_in_path\<close> is partial, and the only exception is the
  \<open>ValueError\<close> of \<open>rindex\<close>: it returns exactly when the input, without one slash at its
  end, has at least \<open>max(levels, 1)\<close> slashes. So it raises on the root path and on every
  string whose only slash is its last character.
\<close>

theorem get_parent_in_path_returns_iff:
  "((\<exists>r. get_parent_in_path path levels = Inr r)
      \<longleftrightarrow> max levels 1 \<le> int (count_slash (strip_trailing_slash path)))
   \<and> ((\<nexists>r. get_parent_in_path path levels = Inr r)
      \<longleftrightarrow> get_parent_in_path path levels = Inl ValueError)
   \<and> get_parent_in_path ''/'' levels = Inl ValueError
   \<and> (path \<noteq> [] \<and> last path = CHR ''/'' \<and> count_slash path = 1
      \<longrightarrow> get_parent_in_path path levels = Inl ValueError)"
proof -
  have le: "nat (max levels 1) \<le> n \<longleftrightarrow> max levels 1 \<le> int n" for n
    by (auto simp: max_def)
  have a: "(\<exists>r. get_parent_in_path path levels = Inr r)
             \<longleftrightarrow> max levels 1 \<le> int (count_slash (strip_trailing_slash path))"
    unfolding get_parent_in_path_char le [symmetric] by simp
  have b: "(\<nexists>r. get_parent_in_path path levels = Inr r)
             \<longleftrightarrow> get_parent_in_path path levels = Inl ValueError"
    unfolding get_parent_in_path_char by simp
  have c: "get_parent_in_path ''/'' levels = Inl ValueError"
    unfolding get_parent_in_path_char
    by (simp add: strip_trailing_slash_def count_slash_def)
  have d: "get_parent_in_path path levels = Inl ValueError"
    if "path \<noteq> [] \<and> last path = CHR ''/'' \<and> count_slash path = 1"
  proof -
    from that have "path = butlast path @ ''/''" by (metis append_butlast_last_id)
    then have "count_slash path = count_slash (butlast path) + count_slash ''/''"
      by (metis count_slash_append)
    with that have "count_slash (strip_trailing_slash path) = 0"
      by (simp add: strip_trailing_slash_def count_slash_def)
    then show ?thesis unfolding get_parent_in_path_char by simp
  qed
  show ?thesis using a b c d by blast
qed

theorem get_parent_in_path_returns_iff_witness:
  "get_parent_in_path ''/a/b/'' 2 = Inr ''/''
   \<and> max (2::int) 1 \<le> int (count_slash (strip_trailing_slash ''/a/b/''))
   \<and> get_parent_in_path ''/a/b/'' 3 = Inl ValueError
   \<and> \<not> max (3::int) 1 \<le> int (count_slash (strip_trailing_slash ''/a/b/''))
   \<and> get_parent_in_path ''a/'' 1 = Inl ValueError"
proof -
  have c: "count_slash (strip_trailing_slash ''/a/b/'') = 2"
    by (simp add: strip_trailing_slash_def count_slash_def)
  have two: "get_parent_in_path ''/a/b/'' 2 = Inr ''/''" by code_simp
  have one: "''a/'' \<noteq> [] \<and> last ''a/'' = CHR ''/'' \<and> count_slash ''a/'' = 1"
    by (simp add: count_slash_def)
  show ?thesis
    using get_parent_in_path_returns_iff [of "''/a/b/''" 3]
      get_parent_in_path_returns_iff [of "''a/''" 1] c two one
    by auto
qed

text \<open>
  Counterexample for C8 as stated. \<open>/a\<close> and \<open>/a/\<close> have fewer than \<open>levels + 1 = 2\<close>
  slashes once a slash at the end is left out (\<open>/a\<close> has fewer than 2 even with every slash
  counted), and \<open>get_parent_in_path\<close> returns on both. In the other direction, \<open>a\<close> has
  \<open>levels + 1 = 0\<close> slashes for \<open>levels = -1\<close>, and \<open>get_parent_in_path\<close> raises.
\<close>

theorem get_parent_in_path_returns_counterexample:
  "get_parent_in_path ''/a'' 1 = Inr ''/''
   \<and> \<not> 1 + 1 \<le> int (count_slash ''/a'')
   \<and> \<not> 1 + 1 \<le> int (count_slash (strip_trailing_slash ''/a''))
   \<and> get_parent_in_path ''/a/'' 1 = Inr ''/''
   \<and> \<not> 1 + 1 \<le> int (count_slash (strip_trailing_slash ''/a/''))
   \<and> get_parent_in_path ''a'' (- 1) = Inl ValueError
   \<and> - 1 + 1 \<le> int (count_slash ''a'')
   \<and> - 1 + 1 \<le> int (count_slash (strip_trailing_slash ''a''))"
proof -
  have "get_parent_in_path ''/a'' 1 = Inr ''/''" by code_simp
  moreover have "get_parent_in_path ''/a/'' 1 = Inr ''/''" by code_simp
  moreover have "get_parent_in_path ''a'' (- 1) = Inl ValueError" by code_simp
  ultimately show ?thesis
    by (simp add: count_slash_def strip_trailing_slash_def)
qed

text \<open>
  C9. For every \<open>k\<close> of at least 1, \<open>get_parent_in_path(path, k)\<close> is \<open>k\<close> successive
  applications of \<open>get_parent_in_path(path, 1)\<close>, an exception of any of them being the
  exception of the whole; and for every \<open>levels\<close> of at most 1, zero and negative ones too,
  \<open>get_parent_in_path(path, levels)\<close> is \<open>get_parent_in_path(path, 1)\<close>, so that what it
  returns is the path with one segment removed.
\<close>

theorem get_parent_in_path_iterates:
  "(1 \<le> k \<longrightarrow> get_parent_in_path path k = parent_times (nat k) path)
   \<and> (levels \<le> 1 \<longrightarrow> get_parent_in_path path levels = get_parent_in_path path 1)
   \<and> (levels \<le> 1 \<longrightarrow>
        (\<forall>r. get_parent_in_path path levels = Inr r \<longrightarrow> r = remove_last_segments path 1))"
proof -
  have "get_parent_in_path path k = parent_times (nat k) path" if "1 \<le> k"
    using that parent_times_eq [of "nat k" path] by simp
  moreover have "get_parent_in_path path levels = get_parent_in_path path 1" if "levels \<le> 1"
    using that by (simp add: get_parent_in_path_def split: sum.splits)
  moreover have "r = remove_last_segments path 1"
    if "levels \<le> 1" "get_parent_in_path path levels = Inr r" for r
  proof -
    from that(1) have "nat (max levels 1) = 1" by (simp add: max_def)
    with get_parent_in_path_Inr [OF that(2)] show ?thesis by simp
  qed
  ultimately show ?thesis by blast
qed

theorem get_parent_in_path_iterates_witness:
  "get_parent_in_path ''/orgs/o/sources/s/'' 3 = Inr ''/orgs/''
   \<and> parent_times (nat 3) ''/orgs/o/sources/s/'' = Inr ''/orgs/''
   \<and> get_parent_in_path ''/orgs/o/sources/s/'' (- 4) = Inr ''/orgs/o/sources/''
   \<and> get_parent_in_path ''/orgs/o/sources/s/'' 1 = Inr ''/orgs/o/sources/''"
proof -
  have a: "get_parent_in_path ''/orgs/o/sources/s/'' 3 = Inr ''/orgs/''" by code_simp
  have b: "get_parent_in_path ''/orgs/o/sources/s/'' 1 = Inr ''/orgs/o/sources/''" by code_simp
  show ?thesis
    using get_parent_in_path_iterates [of 3 "''/orgs/o/sources/s/''" "- 4"] a b by simp
qed

section \<open>Properties of the views\<close>

subsection \<open>Permission clauses and the query set of a sub-resource\<close>

lemma q_holds_reduce:
  "q_holds (reduce Q_or cs c) x \<longleftrightarrow> q_holds c x \<or> (\<exists>c'\<in>set cs. q_holds c' x)"
  unfolding reduce_def by (induction cs arbitrary: c) auto

lemma filter_or_clauses_set:
  "set (filter_or_clauses cs qs) =
     (if cs = [] then set qs else {x \<in> set qs. \<exists>c\<in>set cs. q_holds c x})"
proof (cases cs)
  case Nil
  then show ?thesis by (simp add: filter_or_clauses_def)
next
  case (Cons c cs')
  then show ?thesis
    by (cases cs') (auto simp: filter_or_clauses_def q_holds_reduce)
qed

lemma parent_id_clauses_hold:
  "(\<exists>c\<in>Q_parent_id ` S. q_holds c x) \<longleftrightarrow> parent_id x \<in> S"
  by auto

lemma or_clauses_of_holds:
  "(\<exists>c\<in>set (or_clauses_of self). q_holds c x) \<longleftrightarrow>
     (\<exists>u. user self = Some u \<and> owner x = user_id u)
     \<or> (\<exists>p. userprofile self = Some p \<and> parent_id x \<in> set (organizations p))
     \<or> (\<exists>c\<in>set (base_or_clause self). q_holds c x)"
  by (cases "user self"; cases "userprofile self")
     (simp_all add: or_clauses_of_def bex_Un parent_id_clauses_hold)

text \<open>
  C1. For a request with a user, \<open>SubResourceMixin.get_queryset\<close> returns a query set, and
  every object in it satisfies at least one permission clause: its owner is the requesting
  user, or its \<open>parent_id\<close> is one of the organizations of the user's profile, or a clause
  of \<open>base_or_clause\<close> holds of it. When the view has a parent resource, every object in it
  also has the \<open>parent_type\<close> and \<open>parent_id\<close> of that parent resource, a resource version
  being replaced by its \<open>versioned_object\<close> first.
\<close>

theorem SubResourceMixin_get_queryset_scoped:
  assumes "user self = Some u"
  shows "\<exists>qs self'. SubResourceMixin_get_queryset self db = (Inr qs, self')
           \<and> set qs \<subseteq> set (GenericAPIView_get_queryset self db)
           \<and> (\<forall>x\<in>set qs.
                 (owner x = user_id u
                  \<or> (\<exists>p. userprofile self = Some p \<and> parent_id x \<in> set (organizations p))
                  \<or> (\<exists>c\<in>set (base_or_clause self). q_holds c x))
                 \<and> (\<forall>r. parent_resource self = Some r \<longrightarrow>
                       (let r' = (if has_versioned_object (Some r) then versioned_object_of r else r)
                        in parent_type x = get_for_model r' \<and> parent_id x = obj_id (res_obj r'))))"
proof -
  let ?base = "GenericAPIView_get_queryset self db"
  let ?perm = "filter_or_clauses (or_clauses_of self) ?base"
  have ne: "or_clauses_of self \<noteq> []"
    using assms by (simp add: or_clauses_of_def)
  have perm: "set ?perm = {x \<in> set ?base. \<exists>c\<in>set (or_clauses_of self). q_holds c x}"
    using ne by (simp add: filter_or_clauses_set)
  have clause: "owner x = user_id u
                  \<or> (\<exists>p. userprofile self = Some p \<and> parent_id x \<in> set (organizations p))
                  \<or> (\<exists>c\<in>set (base_or_clause self). q_holds c x)"
    if "x \<in> set ?perm" for x
    using that assms unfolding perm or_clauses_of_holds by auto
  show ?thesis
  proof (cases "parent_resource self")
    case None
    then have "SubResourceMixin_get_queryset self db = (Inr ?perm, self)"
      by (simp add: SubResourceMixin_get_queryset_def)
    then show ?thesis using clause perm None by auto
  next
    case (Some r)
    define r' where "r' = (if has_versioned_object (Some r) then versioned_object_of r else r)"
    let ?qs = "filter (\<lambda>x. parent_type x = get_for_model r' \<and> parent_id x = obj_id (res_obj r')) ?perm"
    have "SubResourceMixin_get_queryset self db = (Inr ?qs, self\<lparr>parent_resource := Some r'\<rparr>)"
      using Some by (simp add: SubResourceMixin_get_queryset_def Let_def r'_def)
    moreover have "set ?qs \<subseteq> set ?base" using perm by auto
    moreover have "\<forall>x\<in>set ?qs.
                 (owner x = user_id u
                  \<or> (\<exists>p. userprofile self = Some p \<and> parent_id x \<in> set (organizations p))
                  \<or> (\<exists>c\<in>set (base_or_clause self). q_holds c x))
                 \<and> (\<forall>r. parent_resource self = Some r \<longrightarrow>
                       (let r' = (if has_versioned_object (Some r) then versioned_object_of r else r)
                        in parent_type x = get_for_model r' \<and> parent_id x = obj_id (res_obj r')))"
    proof (intro ballI conjI)
      fix x assume x: "x \<in> set ?qs"
      then have "x \<in> set ?perm" by simp
      then show "owner x = user_id u
                  \<or> (\<exists>p. userprofile self = Some p \<and> parent_id x \<in> set (organizations p))
                  \<or> (\<exists>c\<in>set (base_or_clause self). q_holds c x)"
        by (rule clause)
      from x have "parent_type x = get_for_model r' \<and> parent_id x = obj_id (res_obj r')"
        by simp
      then show "\<forall>r. parent_resource self = Some r \<longrightarrow>
                       (let r' = (if has_versioned_object (Some r) then versioned_object_of r else r)
                        in parent_type x = get_for_model r' \<and> parent_id x = obj_id (res_obj r'))"
        using Some by (simp add: r'_def Let_def)
    qed
    ultimately show ?thesis by blast
  qed
qed


theorem SubResourceMixin_get_queryset_scoped_witness:
  "user (default_view\<lparr>user := Some alice, parent_resource := Some (ResourceVersion source_version_v1 (Resource source_s1))\<rparr>) = Some alice
   \<and> fst (SubResourceMixin_get_queryset
         (default_view\<lparr>user := Some alice,
                        parent_resource := Some (ResourceVersion source_version_v1 (Resource source_s1))\<rparr>)
         [concept ''c1'' ''alice'', concept ''c2'' ''bob''])
       = Inr [concept ''c1'' ''alice'']
   \<and> owner (concept ''c1'' ''alice'') = user_id alice
   \<and> parent_id (concept ''c1'' ''alice'') = obj_id source_s1"
proof -
  let ?v = "default_view\<lparr>user := Some alice,
              parent_resource := Some (ResourceVersion source_version_v1 (Resource source_s1))\<rparr>"
  let ?db = "[concept ''c1'' ''alice'', concept ''c2'' ''bob'']"
  have u: "user ?v = Some alice" by simp
  have ev: "fst (SubResourceMixin_get_queryset ?v ?db) = Inr [concept ''c1'' ''alice'']"
    by (simp add: SubResourceMixin_get_queryset_def GenericAPIView_get_queryset_def
        filter_or_clauses_def or_clauses_of_def default_view_def concept_def alice_def
        source_s1_def get_for_model_def Let_def)
  from SubResourceMixin_get_queryset_scoped [OF u, of ?db]
  obtain qs self' where "SubResourceMixin_get_queryset ?v ?db = (Inr qs, self')"
    and "\<forall>x\<in>set qs. owner x = user_id alice
           \<or> (\<exists>p. userprofile ?v = Some p \<and> parent_id x \<in> set (organizations p))
           \<or> (\<exists>c\<in>set (base_or_clause ?v). q_holds c x)"
    by blast
  with ev have "owner (concept ''c1'' ''alice'') = user_id alice"
    by (auto simp: default_view_def)
  then show ?thesis using u ev by (simp add: concept_def source_s1_def)
qed

subsection \<open>Looking an object up and the soft delete\<close>

lemma get_object_or_404_cases:
  "(get_object_or_404 qs P = Inl Http404 \<longleftrightarrow> filter P qs = [])
   \<and> (get_object_or_404 qs P = Inr x \<longleftrightarrow> filter P qs = [x])
   \<and> (get_object_or_404 qs P = Inl MultipleObjectsReturned \<longleftrightarrow> 2 \<le> length (filter P qs))
   \<and> get_object_or_404 qs P \<noteq> Inl PermissionDenied
   \<and> get_object_or_404 qs P \<noteq> Inl NotAuthenticated"
  by (auto simp: get_object_or_404_def split: list.splits)

text \<open>\<open>get_object\<close> once the query set to look in is known.\<close>

lemma BaseAPIView_get_object_after:
  assumes "(case qs of None \<Rightarrow> get_queryset self db | Some q' \<Rightarrow> (Inr q', self)) = (Inr q, self1)"
  shows "BaseAPIView_get_object get_queryset self db qs =
     (case get_object_or_404 (case qs of None \<Rightarrow> filter_queryset self1 q | Some q' \<Rightarrow> q')
             (\<lambda>x. pk_field self1 x = map_of (kwargs self1) (lookup_field self1)) of
        Inl e \<Rightarrow> (Inl e, self1)
      | Inr x \<Rightarrow>
          (case check_object_permissions self1 (request self1) x of
             Some e \<Rightarrow> (Inl e, self1)
           | None \<Rightarrow> (Inr x, self1)))"
proof (cases qs)
  case None
  with assms have "get_queryset self db = (Inr q, self1)" by simp
  with None show ?thesis by (simp add: BaseAPIView_get_object_def Let_def)
next
  case (Some q')
  with assms have "q' = q" "self1 = self" by simp_all
  with Some show ?thesis by (auto simp: BaseAPIView_get_object_def Let_def)
qed

lemma BaseAPIView_get_object_eq:
  "BaseAPIView_get_object BaseAPIView_get_queryset self db qs =
     (case get_object_or_404
             (case qs of None \<Rightarrow> filter_queryset self (GenericAPIView_get_queryset self db)
                       | Some q \<Rightarrow> q)
             (\<lambda>x. pk_field self x = map_of (kwargs self) (lookup_field self)) of
        Inl e \<Rightarrow> (Inl e, self)
      | Inr x \<Rightarrow>
          (case check_object_permissions self (request self) x of
             Some e \<Rightarrow> (Inl e, self)
           | None \<Rightarrow> (Inr x, self)))"
  by (cases qs) (simp_all add: BaseAPIView_get_object_def BaseAPIView_get_queryset_def Let_def)

lemma BaseAPIView_get_object_found:
  assumes "fst (BaseAPIView_get_object BaseAPIView_get_queryset self db qs) = Inr x"
  shows "filter (\<lambda>x. pk_field self x = map_of (kwargs self) (lookup_field self))
           (case qs of None \<Rightarrow> filter_queryset self (GenericAPIView_get_queryset self db)
                     | Some q \<Rightarrow> q) = [x]"
proof -
  let ?q = "case qs of None \<Rightarrow> filter_queryset self (GenericAPIView_get_queryset self db)
                     | Some q \<Rightarrow> q"
  let ?P = "\<lambda>x. pk_field self x = map_of (kwargs self) (lookup_field self)"
  from assms have "get_object_or_404 ?q ?P = Inr x"
    unfolding BaseAPIView_get_object_eq
    by (auto split: sum.splits option.splits)
  then show ?thesis using get_object_or_404_cases [of ?q ?P x] by simp
qed

lemma check_object_permissions_cases:
  "(check_object_permissions self req x = None \<longleftrightarrow> has_object_permission self req x)
   \<and> (check_object_permissions self req x = Some PermissionDenied \<longleftrightarrow>
        \<not> has_object_permission self req x \<and> successful_authenticator req)
   \<and> (check_object_permissions self req x = Some NotAuthenticated \<longleftrightarrow>
        \<not> has_object_permission self req x \<and> \<not> successful_authenticator req)
   \<and> check_object_permissions self req x \<noteq> Some Http404"
  by (simp add: check_object_permissions_def permission_denied_def)

lemma SubResourceMixin_get_queryset_view:
  "snd (SubResourceMixin_get_queryset self db) =
     self\<lparr>parent_resource :=
            map_option (\<lambda>r. if has_versioned_object (Some r) then versioned_object_of r else r)
              (parent_resource self)\<rparr>"
  by (cases "parent_resource self") (simp_all add: SubResourceMixin_get_queryset_def Let_def)

text \<open>
  C2, as the code has it. When the view's \<open>get_queryset\<close> returns, \<open>BaseAPIView.get_object\<close>
  raises \<open>Http404\<close> exactly when no object of the filtered query set has the lookup value of
  the URL in its \<open>pk_field\<close>. When exactly one object is found and a permission refuses it,
  it raises \<open>PermissionDenied\<close> for a request an authenticator accepted and
  \<open>NotAuthenticated\<close> for any other request, and in no other case; it returns an object
  exactly when one object is found and the permissions grant it. The table is only read. The
  view is left as the view's \<open>get_queryset\<close> leaves it: unchanged by the one of
  \<open>BaseAPIView\<close>, and with \<open>parent_resource\<close> replaced by its versioned object by the one of
  \<open>SubResourceMixin\<close>.
\<close>

theorem BaseAPIView_get_object_errors:
  fixes get_queryset :: get_queryset
  assumes "(case qs of None \<Rightarrow> get_queryset self db | Some q' \<Rightarrow> (Inr q', self)) = (Inr q, self1)"
  defines "filtered \<equiv> (case qs of None \<Rightarrow> filter_queryset self1 q | Some q' \<Rightarrow> q')"
  defines "found \<equiv> filter (\<lambda>x. pk_field self1 x = map_of (kwargs self1) (lookup_field self1)) filtered"
  defines "result \<equiv> BaseAPIView_get_object get_queryset self db qs"
  shows "(fst result = Inl Http404 \<longleftrightarrow> found = [])
         \<and> (fst result = Inl PermissionDenied \<longleftrightarrow>
              (\<exists>x. found = [x] \<and> \<not> has_object_permission self1 (request self1) x
                   \<and> successful_authenticator (request self1)))
         \<and> (fst result = Inl NotAuthenticated \<longleftrightarrow>
              (\<exists>x. found = [x] \<and> \<not> has_object_permission self1 (request self1) x
                   \<and> \<not> successful_authenticator (request self1)))
         \<and> (\<forall>x. fst result = Inr x \<longleftrightarrow>
              found = [x] \<and> has_object_permission self1 (request self1) x)
         \<and> snd result = self1
         \<and> (qs = None \<and> get_queryset = BaseAPIView_get_queryset \<longrightarrow> self1 = self)
         \<and> (qs = None \<and> get_queryset = SubResourceMixin_get_queryset \<longrightarrow>
              self1 = self\<lparr>parent_resource :=
                map_option (\<lambda>r. if has_versioned_object (Some r) then versioned_object_of r else r)
                  (parent_resource self)\<rparr>)"
proof -
  let ?P = "\<lambda>x. pk_field self1 x = map_of (kwargs self1) (lookup_field self1)"
  have r: "result = (case get_object_or_404 filtered ?P of
        Inl e \<Rightarrow> (Inl e, self1)
      | Inr x \<Rightarrow>
          (case check_object_permissions self1 (request self1) x of
             Some e \<Rightarrow> (Inl e, self1)
           | None \<Rightarrow> (Inr x, self1)))"
    unfolding result_def filtered_def
    by (rule BaseAPIView_get_object_after
          [where qs = qs and get_queryset = get_queryset and self = self and db = db,
           OF assms(1)])
  have base: "self1 = self" if "qs = None \<and> get_queryset = BaseAPIView_get_queryset"
    using that assms(1) by (simp add: BaseAPIView_get_queryset_def)
  have sub: "self1 = self\<lparr>parent_resource :=
                map_option (\<lambda>r. if has_versioned_object (Some r) then versioned_object_of r else r)
                  (parent_resource self)\<rparr>"
    if "qs = None \<and> get_queryset = SubResourceMixin_get_queryset"
  proof -
    from that assms(1) have "snd (SubResourceMixin_get_queryset self db) = self1" by simp
    then show ?thesis unfolding SubResourceMixin_get_queryset_view by simp
  qed
  have main: "(fst result = Inl Http404 \<longleftrightarrow> found = [])
         \<and> (fst result = Inl PermissionDenied \<longleftrightarrow>
              (\<exists>x. found = [x] \<and> \<not> has_object_permission self1 (request self1) x
                   \<and> successful_authenticator (request self1)))
         \<and> (fst result = Inl NotAuthenticated \<longleftrightarrow>
              (\<exists>x. found = [x] \<and> \<not> has_object_permission self1 (request self1) x
                   \<and> \<not> successful_authenticator (request self1)))
         \<and> (\<forall>x. fst result = Inr x \<longleftrightarrow>
              found = [x] \<and> has_object_permission self1 (request self1) x)
         \<and> snd result = self1"
  proof (cases "get_object_or_404 filtered ?P")
    case (Inl e)
    with get_object_or_404_cases [of filtered ?P]
    have "e \<noteq> PermissionDenied" "e \<noteq> NotAuthenticated" "e = Http404 \<longleftrightarrow> found = []"
      "\<And>x. found \<noteq> [x]"
      by (auto simp: found_def)
    with Inl show ?thesis unfolding r by simp
  next
    case (Inr x)
    with get_object_or_404_cases [of filtered ?P x]
    have f: "found = [x]" by (simp add: found_def)
    show ?thesis
    proof (cases "check_object_permissions self1 (request self1) x")
      case None
      with check_object_permissions_cases [of self1 "request self1" x]
      have "has_object_permission self1 (request self1) x" by simp
      with None Inr f show ?thesis unfolding r by auto
    next
      case (Some e)
      with check_object_permissions_cases [of self1 "request self1" x]
      have "\<not> has_object_permission self1 (request self1) x" "e \<noteq> Http404"
        "e = PermissionDenied \<longleftrightarrow> successful_authenticator (request self1)"
        "e = NotAuthenticated \<longleftrightarrow> \<not> successful_authenticator (request self1)"
        by (auto simp: check_object_permissions_def permission_denied_def split: if_splits)
      with Some Inr f show ?thesis unfolding r by auto
    qed
  qed
  show ?thesis using main base sub by blast
qed

theorem BaseAPIView_get_object_errors_witness:
  "fst (BaseAPIView_get_object BaseAPIView_get_queryset
          (default_view\<lparr>kwargs := [(''pk'', Str ''c3'')]\<rparr>)
          [concept ''c1'' ''alice'', concept ''c2'' ''bob''] None) = Inl Http404
   \<and> fst (BaseAPIView_get_object BaseAPIView_get_queryset
          (concept_view\<lparr>kwargs := [(''pk'', Str ''c2'')],
                         has_object_permission := (\<lambda>r x. owner x = ''alice'')\<rparr>)
          [concept ''c1'' ''alice'', concept ''c2'' ''bob''] None) = Inl PermissionDenied
   \<and> fst (BaseAPIView_get_object BaseAPIView_get_queryset
          (concept_view\<lparr>kwargs := [(''pk'', Str ''c1'')],
                         has_object_permission := (\<lambda>r x. owner x = ''alice'')\<rparr>)
          [concept ''c1'' ''alice'', concept ''c2'' ''bob''] None) = Inr (concept ''c1'' ''alice'')"
proof -
  let ?db = "[concept ''c1'' ''alice'', concept ''c2'' ''bob'']"
  let ?v3 = "default_view\<lparr>kwargs := [(''pk'', Str ''c3'')]\<rparr>"
  let ?v2 = "concept_view\<lparr>kwargs := [(''pk'', Str ''c2'')],
                         has_object_permission := (\<lambda>r x. owner x = ''alice'')\<rparr>"
  let ?v1 = "concept_view\<lparr>kwargs := [(''pk'', Str ''c1'')],
                         has_object_permission := (\<lambda>r x. owner x = ''alice'')\<rparr>"
  have g: "(case None of None \<Rightarrow> BaseAPIView_get_queryset v ?db | Some q' \<Rightarrow> (Inr q', v))
             = (Inr (GenericAPIView_get_queryset v ?db), v)" for v
    by (simp add: BaseAPIView_get_queryset_def)
  have a: "filter (\<lambda>x. pk_field ?v3 x = map_of (kwargs ?v3) (lookup_field ?v3))
             (filter_queryset ?v3 (GenericAPIView_get_queryset ?v3 ?db)) = []"
    by (simp add: default_view_def GenericAPIView_get_queryset_def mnemonic_field_def concept_def)
  have b: "filter (\<lambda>x. pk_field ?v2 x = map_of (kwargs ?v2) (lookup_field ?v2))
             (filter_queryset ?v2 (GenericAPIView_get_queryset ?v2 ?db)) = [concept ''c2'' ''bob'']"
    by (simp add: concept_view_def default_view_def GenericAPIView_get_queryset_def
        mnemonic_field_def concept_def)
  have c: "filter (\<lambda>x. pk_field ?v1 x = map_of (kwargs ?v1) (lookup_field ?v1))
             (filter_queryset ?v1 (GenericAPIView_get_queryset ?v1 ?db)) = [concept ''c1'' ''alice'']"
    by (simp add: concept_view_def default_view_def GenericAPIView_get_queryset_def
        mnemonic_field_def concept_def)
  have pb: "\<not> has_object_permission ?v2 (request ?v2) (concept ''c2'' ''bob'')"
    "successful_authenticator (request ?v2)"
    by (simp_all add: concept_def concept_view_def)
  have pc: "has_object_permission ?v1 (request ?v1) (concept ''c1'' ''alice'')"
    by (simp add: concept_def)
  show ?thesis
    using BaseAPIView_get_object_errors
            [where qs = None and get_queryset = BaseAPIView_get_queryset
               and self = ?v3 and db = ?db, OF g]
      BaseAPIView_get_object_errors
            [where qs = None and get_queryset = BaseAPIView_get_queryset
               and self = ?v2 and db = ?db, OF g]
      BaseAPIView_get_object_errors
            [where qs = None and get_queryset = BaseAPIView_get_queryset
               and self = ?v1 and db = ?db, OF g]
    unfolding option.case a b c using pb pc by blast
qed

text \<open>
  Counterexample for C2 as stated. On a view with the \<open>get_queryset\<close> of \<open>SubResourceMixin\<close>
  whose parent resource is the version \<open>v1\<close>, \<open>get_object\<close> raises \<open>Http404\<close> and leaves
  \<open>parent_resource\<close> changed to the source. And for a request no authenticator accepted,
  the one object found fails the permission check and the exception is \<open>NotAuthenticated\<close>,
  not \<open>PermissionDenied\<close>.
\<close>

theorem BaseAPIView_get_object_counterexample:
  "fst (BaseAPIView_get_object SubResourceMixin_get_queryset
          (concept_view\<lparr>kwargs := [(''pk'', Str ''c3'')],
                         parent_resource :=
                           Some (ResourceVersion source_version_v1 (Resource source_s1))\<rparr>)
          [concept ''c1'' ''alice'', concept ''c2'' ''bob''] None) = Inl Http404
   \<and> parent_resource
        (snd (BaseAPIView_get_object SubResourceMixin_get_queryset
          (concept_view\<lparr>kwargs := [(''pk'', Str ''c3'')],
                         parent_resource :=
                           Some (ResourceVersion source_version_v1 (Resource source_s1))\<rparr>)
          [concept ''c1'' ''alice'', concept ''c2'' ''bob''] None))
       = Some (Resource source_s1)
   \<and> fst (BaseAPIView_get_object BaseAPIView_get_queryset
          (default_view\<lparr>kwargs := [(''pk'', Str ''c2'')],
                         has_object_permission := (\<lambda>r x. owner x = ''alice'')\<rparr>)
          [concept ''c1'' ''alice'', concept ''c2'' ''bob''] None) = Inl NotAuthenticated
   \<and> check_object_permissions
        (default_view\<lparr>kwargs := [(''pk'', Str ''c2'')],
                       has_object_permission := (\<lambda>r x. owner x = ''alice'')\<rparr>)
        (request default_view) (concept ''c2'' ''bob'') = Some NotAuthenticated"
  by (simp add: BaseAPIView_get_object_def SubResourceMixin_get_queryset_def
      BaseAPIView_get_queryset_def GenericAPIView_get_queryset_def get_object_or_404_def
      check_object_permissions_def permission_denied_def filter_or_clauses_def or_clauses_of_def
      get_for_model_def concept_view_def default_view_def mnemonic_field_def concept_def
      alice_def source_s1_def reduce_def Let_def)

lemma save_existing:
  assumes "distinct (map obj_id db)" "i < length db" "obj_id y = obj_id (db ! i)"
  shows "save y db = db[i := y]"
proof -
  have mem: "obj_id y \<in> set (map obj_id db)"
    using assms(2,3) by (metis length_map nth_map nth_mem)
  have "map (\<lambda>r. if obj_id r = obj_id y then y else r) db = db[i := y]"
  proof (rule nth_equalityI)
    show "length (map (\<lambda>r. if obj_id r = obj_id y then y else r) db) = length (db[i := y])"
      by simp
  next
    fix j assume "j < length (map (\<lambda>r. if obj_id r = obj_id y then y else r) db)"
    then have j: "j < length db" by simp
    have "obj_id (db ! j) = obj_id y \<longleftrightarrow> j = i"
    proof -
      have "map obj_id db ! j = map obj_id db ! i \<longleftrightarrow> j = i"
        using nth_eq_iff_index_eq [OF assms(1), of j i] assms(2) j by simp
      then show ?thesis using assms(2,3) j by simp
    qed
    then show "map (\<lambda>r. if obj_id r = obj_id y then y else r) db ! j = db[i := y] ! j"
      using j assms(2) by (simp add: nth_list_update)
  qed
  then show ?thesis using mem by (simp add: save_def)
qed

text \<open>
  C4. \<open>BaseAPIView.destroy\<close> is a soft delete. On a table with unique primary keys and filter
  backends that only filter, when \<open>get_object\<close> resolves an object the response is 204, the
  row of that object has \<open>is_active\<close> set to \<open>False\<close> and every other field as before, every
  other row is unchanged, and no row is removed; when \<open>get_object\<close> raises, the table is
  unchanged.
\<close>

theorem BaseAPIView_destroy_soft_delete:
  assumes pk: "distinct (map obj_id db)"
    and backends: "\<forall>q. set (filter_queryset self q) \<subseteq> set q"
  shows "case BaseAPIView_destroy BaseAPIView_get_queryset self db req of
           (Inl e, self', db') \<Rightarrow>
              BaseAPIView_get_object BaseAPIView_get_queryset self db None = (Inl e, self')
              \<and> db' = db
         | (Inr resp, self', db') \<Rightarrow>
              resp = Response 204
              \<and> (\<exists>i<length db.
                    BaseAPIView_get_object BaseAPIView_get_queryset self db None
                      = (Inr (db ! i), self')
                    \<and> db' = db[i := (db ! i)\<lparr>is_active := False\<rparr>]
                    \<and> map obj_id db' = map obj_id db
                    \<and> (\<forall>j<length db. j \<noteq> i \<longrightarrow> db' ! j = db ! j))"
proof -
  obtain res self' where go: "BaseAPIView_get_object BaseAPIView_get_queryset self db None = (res, self')"
    by (cases "BaseAPIView_get_object BaseAPIView_get_queryset self db None")
  show ?thesis
  proof (cases res)
  case (Inl e)
  then show ?thesis by (simp add: BaseAPIView_destroy_def go)
next
  case (Inr x)
  have "filter (\<lambda>x. pk_field self x = map_of (kwargs self) (lookup_field self))
          (filter_queryset self (GenericAPIView_get_queryset self db)) = [x]"
    using BaseAPIView_get_object_found [of self db None x] Inr go by simp
  then have "x \<in> set (filter (\<lambda>x. pk_field self x = map_of (kwargs self) (lookup_field self))
          (filter_queryset self (GenericAPIView_get_queryset self db)))"
    by simp
  then have "x \<in> set (filter_queryset self (GenericAPIView_get_queryset self db))"
    by simp
  then have "x \<in> set (GenericAPIView_get_queryset self db)"
    using backends by blast
  then have "x \<in> set db"
    by (simp add: GenericAPIView_get_queryset_def)
  then obtain i where i: "i < length db" "db ! i = x"
    by (auto simp: in_set_conv_nth)
  let ?x' = "x\<lparr>is_active := False\<rparr>"
  have sv: "save ?x' db = db[i := ?x']"
    using i by (intro save_existing [OF pk]) simp_all
  have ids: "map obj_id (db[i := ?x']) = map obj_id db"
    using i by (simp add: map_update list_update_same_conv)
  have "BaseAPIView_destroy BaseAPIView_get_queryset self db req
          = (Inr (Response 204), self', db[i := ?x'])"
    by (simp add: BaseAPIView_destroy_def go Inr sv HTTP_204_NO_CONTENT_def)
  moreover have "\<forall>j<length db. j \<noteq> i \<longrightarrow> db[i := ?x'] ! j = db ! j" by simp
  ultimately show ?thesis using i go Inr ids by auto
qed
qed


theorem BaseAPIView_destroy_soft_delete_witness:
  "BaseAPIView_destroy BaseAPIView_get_queryset
     (default_view\<lparr>kwargs := [(''pk'', Str ''c1'')]\<rparr>)
     [concept ''c1'' ''alice'', concept ''c2'' ''bob'']
     \<lparr>req_user = Some alice, path_info = ''/orgs/o/sources/s/concepts/c1/'', successful_authenticator = True\<rparr>
   = (Inr (Response 204),
      default_view\<lparr>kwargs := [(''pk'', Str ''c1'')]\<rparr>,
      [(concept ''c1'' ''alice'')\<lparr>is_active := False\<rparr>, concept ''c2'' ''bob''])"
proof -
  let ?v = "default_view\<lparr>kwargs := [(''pk'', Str ''c1'')]\<rparr>"
  let ?db = "[concept ''c1'' ''alice'', concept ''c2'' ''bob'']"
  let ?req = "\<lparr>req_user = Some alice, path_info = ''/orgs/o/sources/s/concepts/c1/'', successful_authenticator = True\<rparr>"
  have pk: "distinct (map obj_id ?db)" by (simp add: concept_def)
  have backends: "\<forall>q. set (filter_queryset ?v q) \<subseteq> set q" by (simp add: default_view_def)
  have go: "BaseAPIView_get_object BaseAPIView_get_queryset ?v ?db None
              = (Inr (concept ''c1'' ''alice''), ?v)"
    by (simp add: BaseAPIView_get_object_eq get_object_or_404_def check_object_permissions_def
        default_view_def GenericAPIView_get_queryset_def mnemonic_field_def concept_def)
  obtain res self' db' where d: "BaseAPIView_destroy BaseAPIView_get_queryset ?v ?db ?req = (res, self', db')"
    by (cases "BaseAPIView_destroy BaseAPIView_get_queryset ?v ?db ?req")
  have "res = Inr (Response 204) \<and> self' = ?v
        \<and> db' = [(concept ''c1'' ''alice'')\<lparr>is_active := False\<rparr>, concept ''c2'' ''bob'']"
  proof (cases res)
    case (Inl e)
    with BaseAPIView_destroy_soft_delete [OF pk backends, of ?req] d go show ?thesis by simp
  next
    case (Inr resp)
    with BaseAPIView_destroy_soft_delete [OF pk backends, of ?req] d
    obtain i where i: "i < length ?db" "resp = Response 204"
      "BaseAPIView_get_object BaseAPIView_get_queryset ?v ?db None = (Inr (?db ! i), self')"
      "db' = ?db[i := (?db ! i)\<lparr>is_active := False\<rparr>]"
      by auto
    from i(3) go have eq: "?db ! i = concept ''c1'' ''alice''" "self' = ?v" by simp_all
    have "i = 0"
    proof (rule ccontr)
      assume "i \<noteq> 0"
      with i(1) have "i = 1" by simp
      with eq(1) show False by (simp add: concept_def)
    qed
    with i(2,4) eq(2) Inr show ?thesis by simp
  qed
  with d show ?thesis by simp
qed

subsection \<open>Children of a versioned resource\<close>

text \<open>
  C5, as the code has it. When the URL gives no lookup value (none, or an empty one), the
  query set of a \<open>VersionedResourceChildMixin\<close> view is exactly the objects of the view's base
  query set whose id is in the child list of the parent resource version. The clauses on the
  owner and the organizations are not part of it.
\<close>

theorem VersionedResourceChildMixin_get_queryset_children:
  assumes "\<not> (case map_of (kwargs self) (lookup_field self) of
                None \<Rightarrow> False | Some v \<Rightarrow> truthy v)"
    and "child_list_attribute self = Some attr"
    and "parent_resource_version self = Some v"
  shows "\<exists>qs. VersionedResourceChildMixin_get_queryset self db = (Inr qs, self)
           \<and> qs = filter (\<lambda>x. obj_id x \<in> set (case attr v of None \<Rightarrow> [] | Some ids \<Rightarrow> ids))
                    (GenericAPIView_get_queryset self db)
           \<and> set qs = {x \<in> set db. queryset self x
                          \<and> obj_id x \<in> set (case attr v of None \<Rightarrow> [] | Some ids \<Rightarrow> ids)}"
proof -
  have "all_children_of self = Inr (case attr v of None \<Rightarrow> [] | Some ids \<Rightarrow> ids)"
    using assms(2,3) by (simp add: all_children_of_def)
  then have "VersionedResourceChildMixin_get_queryset self db =
          (Inr (filter (\<lambda>x. obj_id x \<in> set (case attr v of None \<Rightarrow> [] | Some ids \<Rightarrow> ids))
                  (GenericAPIView_get_queryset self db)), self)"
    using assms(1)
    by (simp add: VersionedResourceChildMixin_get_queryset_def BaseAPIView_get_queryset_def Let_def)
  then show ?thesis by (auto simp: GenericAPIView_get_queryset_def)
qed

theorem VersionedResourceChildMixin_get_queryset_children_witness:
  "VersionedResourceChildMixin_get_queryset concept_view
      [concept ''c1'' ''bob'', concept ''c2'' ''bob'']
    = (Inr [concept ''c1'' ''bob''], concept_view)"
proof -
  have a: "\<not> (case map_of (kwargs concept_view) (lookup_field concept_view) of
                None \<Rightarrow> False | Some v \<Rightarrow> truthy v)"
    by (simp add: concept_view_def default_view_def)
  have b: "child_list_attribute concept_view = Some concepts_attribute"
    by (simp add: concept_view_def)
  have c: "parent_resource_version concept_view = Some (ResourceVersion source_version_v1 (Resource source_s1))"
    by (simp add: concept_view_def)
  have d: "concepts_attribute (ResourceVersion source_version_v1 (Resource source_s1)) = Some [''c1'']"
    by (simp add: concepts_attribute_def source_version_v1_def)
  have e: "GenericAPIView_get_queryset concept_view [concept ''c1'' ''bob'', concept ''c2'' ''bob'']
             = [concept ''c1'' ''bob'', concept ''c2'' ''bob'']"
    by (simp add: GenericAPIView_get_queryset_def concept_view_def default_view_def)
  show ?thesis
    using VersionedResourceChildMixin_get_queryset_children
            [OF a b c, of "[concept ''c1'' ''bob'', concept ''c2'' ''bob'']"]
    unfolding d e by (simp add: concept_def)
qed

text \<open>
  Counterexample for C5 as stated. For the user \<open>alice\<close>, without organizations, the query
  set holds \<open>c1\<close>, owned by \<open>bob\<close>, which the permission clauses of the view reject; and with
  the lookup value \<open>c2\<close> it holds \<open>c2\<close>, which is neither a child of the parent resource
  version nor let through by the permission clauses.
\<close>

theorem VersionedResourceChildMixin_get_queryset_counterexample:
  "fst (VersionedResourceChildMixin_get_queryset concept_view
          [concept ''c1'' ''bob'', concept ''c2'' ''bob'']) = Inr [concept ''c1'' ''bob'']
   \<and> filter_or_clauses (or_clauses_of concept_view) [concept ''c1'' ''bob''] = []
   \<and> fst (VersionedResourceChildMixin_get_queryset
            (concept_view\<lparr>kwargs := [(''pk'', Str ''c2'')]\<rparr>)
            [concept ''c1'' ''bob'', concept ''c2'' ''bob'']) = Inr [concept ''c2'' ''bob'']
   \<and> all_children_of (concept_view\<lparr>kwargs := [(''pk'', Str ''c2'')]\<rparr>) = Inr [''c1'']
   \<and> filter_or_clauses (or_clauses_of (concept_view\<lparr>kwargs := [(''pk'', Str ''c2'')]\<rparr>))
        [concept ''c2'' ''bob''] = []"
  by (simp add: VersionedResourceChildMixin_get_queryset_def BaseAPIView_get_queryset_def
      GenericAPIView_get_queryset_def all_children_of_def filter_or_clauses_def or_clauses_of_def
      concept_view_def default_view_def concepts_attribute_def source_version_v1_def
      concept_def alice_def reduce_def Let_def)

subsection \<open>Resolving the parent from the path\<close>

lemma parent_from_path_Inr:
  assumes "parent_from_path resolve self path levels = Inr s"
  shows "\<exists>pp. get_parent_in_path path levels = Inr pp
           \<and> parent_path_info s = Some pp
           \<and> (if pp = [] \<or> pp = ''/'' then parent_resource s = None
               else \<exists>r. get_object_for_path resolve pp (request self) = Inr r
                        \<and> parent_resource s = Some r)
           \<and> s = self\<lparr>parent_path_info := Some pp, parent_resource := parent_resource s\<rparr>"
proof (cases "get_parent_in_path path levels")
  case (Inl e)
  with assms show ?thesis by (simp add: parent_from_path_def)
next
  case (Inr pp)
  show ?thesis
  proof (cases "pp = [] \<or> pp = ''/''")
    case True
    with assms Inr have "s = self\<lparr>parent_path_info := Some pp, parent_resource := None\<rparr>"
      by (auto simp: parent_from_path_def Let_def)
    with Inr True show ?thesis by simp
  next
    case False
    then have ne: "pp \<noteq> [] \<and> ''/'' \<noteq> pp" by auto
    show ?thesis
    proof (cases "get_object_for_path resolve pp (request self)")
      case (Inl e)
      with assms Inr ne show ?thesis by (simp add: parent_from_path_def Let_def)
    next
      case r: (Inr r)
      with assms Inr ne
      have "s = self\<lparr>parent_path_info := Some pp, parent_resource := Some r\<rparr>"
        by (simp add: parent_from_path_def Let_def)
      with Inr False r show ?thesis by simp
    qed
  qed
qed

lemma set_user_Inr:
  assumes "set_user self req = Inr s"
  shows "list_model_mixin s = list_model_mixin self
         \<and> create_model_mixin s = create_model_mixin self
         \<and> request s = request self
         \<and> user_is_self s = user_is_self self
         \<and> user s = req_user req"
  using assms by (auto simp: set_user_def Let_def split: option.splits sum.splits)

text \<open>
  C6. When \<open>SubResourceMixin.initialize\<close> returns and it is not the case that
  \<open>user_is_self\<close> holds with a user profile, the parent path is the request path with exactly
  one trailing segment removed for a list or create view, and exactly two otherwise; the
  parent resource is \<open>None\<close> when that path is empty or the root, and otherwise the object
  the parent path resolves to.
\<close>

theorem SubResourceMixin_initialize_parent:
  assumes init: "SubResourceMixin_initialize resolve self req path kw = Inr self'"
    and not_self: "\<not> (truthy (user_is_self self') \<and> userprofile self' \<noteq> None)"
  shows "\<exists>pp. get_parent_in_path path
                 (if list_model_mixin self \<or> create_model_mixin self then 1 else 2) = Inr pp
           \<and> pp = remove_last_segments path
                    (if list_model_mixin self \<or> create_model_mixin self then 1 else 2)
           \<and> parent_path_info self' = Some pp
           \<and> (if pp = [] \<or> pp = ''/'' then parent_resource self' = None
               else \<exists>r. get_object_for_path resolve pp (request self) = Inr r
                        \<and> parent_resource self' = Some r)"
proof -
  let ?levels = "if list_model_mixin self \<or> create_model_mixin self then 1 else 2 :: int"
  obtain s where s: "set_user (BaseAPIView_initialize self req path kw) req = Inr s"
    using init by (auto simp: SubResourceMixin_initialize_def split: sum.splits)
  have fields: "list_model_mixin s = list_model_mixin self"
    "create_model_mixin s = create_model_mixin self" "request s = request self"
    using set_user_Inr [OF s] by (simp_all add: BaseAPIView_initialize_def)
  have walk: "parent_from_path resolve s path ?levels = Inr self'"
  proof (cases "if truthy (user_is_self s) then userprofile s else None")
    case None
    with init s fields show ?thesis
      by (simp add: SubResourceMixin_initialize_def Let_def)
  next
    case (Some p)
    with init s have "self' = s\<lparr>parent_resource := Some (Resource (profile_obj p))\<rparr>"
      by (simp add: SubResourceMixin_initialize_def)
    with Some have "truthy (user_is_self self') \<and> userprofile self' \<noteq> None"
      by (auto split: if_splits)
    with not_self show ?thesis by simp
  qed
  from parent_from_path_Inr [OF walk] obtain pp where pp:
    "get_parent_in_path path ?levels = Inr pp" "parent_path_info self' = Some pp"
    "if pp = [] \<or> pp = ''/'' then parent_resource self' = None
     else \<exists>r. get_object_for_path resolve pp (request s) = Inr r \<and> parent_resource self' = Some r"
    by blast
  have "nat (max ?levels 1) = (if list_model_mixin self \<or> create_model_mixin self then 1 else 2)"
    by simp
  with get_parent_in_path_Inr [OF pp(1)]
  have "pp = remove_last_segments path
               (if list_model_mixin self \<or> create_model_mixin self then 1 else 2)"
    by simp
  with pp fields(3) show ?thesis by auto
qed

text \<open>
  C7. When \<open>ResourceVersionMixin.initialize\<close> returns, the versioned object is the object
  the parent path (the request path one segment up) resolves to, and \<open>get_queryset\<close> then
  returns exactly the objects of the base query set whose \<open>versioned_object_type\<close> and
  \<open>versioned_object_id\<close> are those of that object.
\<close>

theorem ResourceVersionMixin_scoped:
  assumes "ResourceVersionMixin_initialize resolve self req path kw = Inr self'"
  shows "\<exists>pp r qs.
           get_parent_in_path path 1 = Inr pp
           \<and> pp = remove_last_segments path 1
           \<and> versioned_object_path_info self' = Some pp
           \<and> get_object_for_path resolve pp req = Inr r
           \<and> versioned_object self' = Some r
           \<and> ResourceVersionMixin_get_queryset self' db = (Inr qs, self')
           \<and> set qs = {x \<in> set (GenericAPIView_get_queryset self' db).
                          versioned_object_type x = get_for_model r
                          \<and> versioned_object_id x = obj_id (res_obj r)}"
proof -
  obtain pp where pp: "get_parent_in_path path 1 = Inr pp"
    using assms by (auto simp: ResourceVersionMixin_initialize_def Let_def split: sum.splits)
  obtain r where r: "get_object_for_path resolve pp req = Inr r"
    using assms pp by (auto simp: ResourceVersionMixin_initialize_def Let_def split: sum.splits)
  have self': "self' = (BaseAPIView_initialize self req path kw)
                 \<lparr>versioned_object_path_info := Some pp, versioned_object := Some r\<rparr>"
    using assms pp r by (simp add: ResourceVersionMixin_initialize_def Let_def)
  have "pp = remove_last_segments path 1"
    using get_parent_in_path_Inr [OF pp] by simp
  moreover have "versioned_object_path_info self' = Some pp" "versioned_object self' = Some r"
    by (simp_all add: self')
  moreover from this(2) have "ResourceVersionMixin_get_queryset self' db =
      (Inr (filter (\<lambda>x. versioned_object_type x = get_for_model r
                          \<and> versioned_object_id x = obj_id (res_obj r))
              (GenericAPIView_get_queryset self' db)), self')"
    by (simp add: ResourceVersionMixin_get_queryset_def Let_def)
  ultimately show ?thesis using pp r by auto
qed


lemma example_resolver_source:
  "get_object_for_path example_resolver ''/orgs/o/sources/s/'' req = Inr (Resource source_s1)"
  by (simp add: get_object_for_path_def example_resolver_def fixed_view_class_def)


theorem SubResourceMixin_initialize_parent_witness:
  "SubResourceMixin_initialize example_resolver default_view
      \<lparr>req_user = Some alice, path_info = ''/orgs/o/sources/s/concepts/c1/'', successful_authenticator = True\<rparr>
      ''/orgs/o/sources/s/concepts/c1/'' [(''concept'', Str ''c1'')]
    = Inr (default_view\<lparr>user := Some alice,
                          parent_path_info := Some ''/orgs/o/sources/s/'',
                          parent_resource := Some (Resource source_s1)\<rparr>)
   \<and> remove_last_segments ''/orgs/o/sources/s/concepts/c1/'' 2 = ''/orgs/o/sources/s/''"
proof -
  let ?req = "\<lparr>req_user = Some alice, path_info = ''/orgs/o/sources/s/concepts/c1/'', successful_authenticator = True\<rparr>"
  let ?v' = "default_view\<lparr>user := Some alice,
                          parent_path_info := Some ''/orgs/o/sources/s/'',
                          parent_resource := Some (Resource source_s1)\<rparr>"
  have gp: "get_parent_in_path ''/orgs/o/sources/s/concepts/c1/'' 2 = Inr ''/orgs/o/sources/s/''"
    by code_simp
  have init: "SubResourceMixin_initialize example_resolver default_view ?req
                ''/orgs/o/sources/s/concepts/c1/'' [(''concept'', Str ''c1'')] = Inr ?v'"
    by (simp add: SubResourceMixin_initialize_def BaseAPIView_initialize_def set_user_def
        parent_from_path_def gp example_resolver_source default_view_def alice_def Let_def)
  have not_self: "\<not> (truthy (user_is_self ?v') \<and> userprofile ?v' \<noteq> None)"
    by (simp add: default_view_def)
  from SubResourceMixin_initialize_parent [OF init not_self]
  obtain pp where
    "pp = remove_last_segments ''/orgs/o/sources/s/concepts/c1/''
            (if list_model_mixin default_view \<or> create_model_mixin default_view then 1 else 2)"
    "parent_path_info ?v' = Some pp"
    by blast
  then have "remove_last_segments ''/orgs/o/sources/s/concepts/c1/'' 2 = ''/orgs/o/sources/s/''"
    by (simp add: default_view_def)
  with init show ?thesis by simp
qed

theorem ResourceVersionMixin_scoped_witness:
  "ResourceVersionMixin_initialize example_resolver default_view
      \<lparr>req_user = Some alice, path_info = ''/orgs/o/sources/s/v1/'', successful_authenticator = True\<rparr>
      ''/orgs/o/sources/s/v1/'' [(''source'', Str ''s''), (''version'', Str ''v1'')]
    = Inr (default_view\<lparr>versioned_object_path_info := Some ''/orgs/o/sources/s/'',
                          versioned_object := Some (Resource source_s1)\<rparr>)
   \<and> fst (ResourceVersionMixin_get_queryset
            (default_view\<lparr>versioned_object_path_info := Some ''/orgs/o/sources/s/'',
                           versioned_object := Some (Resource source_s1)\<rparr>)
            [source_version_v1, source_version_v1\<lparr>obj_id := ''v9'', versioned_object_id := ''s2''\<rparr>])
       = Inr [source_version_v1]
   \<and> versioned_object_type source_version_v1 = get_for_model (Resource source_s1)
   \<and> versioned_object_id source_version_v1 = obj_id source_s1"
proof -
  let ?req = "\<lparr>req_user = Some alice, path_info = ''/orgs/o/sources/s/v1/'', successful_authenticator = True\<rparr>"
  let ?v' = "default_view\<lparr>versioned_object_path_info := Some ''/orgs/o/sources/s/'',
                          versioned_object := Some (Resource source_s1)\<rparr>"
  let ?db = "[source_version_v1, source_version_v1\<lparr>obj_id := ''v9'', versioned_object_id := ''s2''\<rparr>]"
  have gp: "get_parent_in_path ''/orgs/o/sources/s/v1/'' 1 = Inr ''/orgs/o/sources/s/''"
    by code_simp
  have init: "ResourceVersionMixin_initialize example_resolver default_view ?req
                ''/orgs/o/sources/s/v1/'' [(''source'', Str ''s''), (''version'', Str ''v1'')]
              = Inr ?v'"
    by (simp add: ResourceVersionMixin_initialize_def BaseAPIView_initialize_def gp
        example_resolver_source default_view_def Let_def)
  have qs: "fst (ResourceVersionMixin_get_queryset ?v' ?db) = Inr [source_version_v1]"
    by (simp add: ResourceVersionMixin_get_queryset_def GenericAPIView_get_queryset_def
        get_for_model_def default_view_def source_version_v1_def source_s1_def Let_def)
  from ResourceVersionMixin_scoped [OF init, of ?db]
  obtain r qs' where r: "versioned_object ?v' = Some r"
    and q: "ResourceVersionMixin_get_queryset ?v' ?db = (Inr qs', ?v')"
    and sc: "set qs' = {x \<in> set (GenericAPIView_get_queryset ?v' ?db).
                          versioned_object_type x = get_for_model r
                          \<and> versioned_object_id x = obj_id (res_obj r)}"
    by blast
  from r have r': "r = Resource source_s1" by simp
  from q qs have "qs' = [source_version_v1]" by simp
  with sc r' have "versioned_object_type source_version_v1 = get_for_model (Resource source_s1)
                   \<and> versioned_object_id source_version_v1 = obj_id source_s1"
    by auto
  with init qs show ?thesis by simp
qed



end
